theory Spec2Isabelle
  imports Main "HOL-Library.Word" "HOL-Library.Monad_Syntax"
begin

unbundle bit_operations_syntax

section \<open>Squares and boards\<close>

text \<open>
  Every square is one byte (chess.c, lines 4-11): bit 7 "piece selected", bit 6 "dot is
  present", bit 5 "pawn can be en passanted", bit 4 "rook/king has not moved / pawn is a top
  pawn", bit 3 colour, bits 0-2 piece type.  The board is the C array \<open>u8 board[64]\<close>.
  It is modelled as a function from the (promoted, hence \<open>int\<close>) index expression to the
  byte; every access goes through \<open>rd\<close> or \<open>wr\<close>, which return \<open>None\<close> for an index
  outside \<open>0..63\<close> (an out-of-bounds access, undefined behaviour in C).  Variables of
  type \<open>u8\<close> that hold indices are integers in \<open>0..255\<close>; \<open>to_u8\<close> is the conversion
  that an assignment to such a variable performs.
\<close>

type_synonym u8 = "8 word"
type_synonym board = "int \<Rightarrow> u8"

abbreviation (input) NONE :: u8 where "NONE \<equiv> 0"
abbreviation (input) PAWN :: u8 where "PAWN \<equiv> 1"
abbreviation (input) KNIGHT :: u8 where "KNIGHT \<equiv> 2"
abbreviation (input) BISHOP :: u8 where "BISHOP \<equiv> 3"
abbreviation (input) ROOK :: u8 where "ROOK \<equiv> 4"
abbreviation (input) QUEEN :: u8 where "QUEEN \<equiv> 5"
abbreviation (input) KING :: u8 where "KING \<equiv> 6"
abbreviation (input) WHITE :: u8 where "WHITE \<equiv> 0"
abbreviation (input) BLACK :: u8 where "BLACK \<equiv> 8"

definition to_u8 :: "int \<Rightarrow> int" where
  "to_u8 k = k mod 256"

definition rd :: "board \<Rightarrow> int \<Rightarrow> u8 option" where
  "rd board k = (if 0 \<le> k \<and> k < 64 then Some (board k) else None)"

definition wr :: "board \<Rightarrow> int \<Rightarrow> u8 \<Rightarrow> board option" where
  "wr board k v = (if 0 \<le> k \<and> k < 64 then Some (board(k := v)) else None)"

text \<open>\<open>board[k] op= c\<close>: read the byte, write it back changed.\<close>

definition modify :: "board \<Rightarrow> int \<Rightarrow> (u8 \<Rightarrow> u8) \<Rightarrow> board option" where
  "modify board k f = do { x \<leftarrow> rd board k; wr board k (f x) }"

text \<open>
  The short-circuit operators \<open>&&\<close> and \<open>||\<close> over conditions that read the board: the
  right operand is only evaluated (and may only fail) when the left one does not decide.
\<close>

definition andalso :: "bool option \<Rightarrow> bool option \<Rightarrow> bool option" where
  "andalso p q = (case p of None \<Rightarrow> None | Some c \<Rightarrow> if c then q else Some False)"

definition orelse :: "bool option \<Rightarrow> bool option \<Rightarrow> bool option" where
  "orelse p q = (case p of None \<Rightarrow> None | Some c \<Rightarrow> if c then Some True else q)"

text \<open>A condition on one byte of the board, and a comparison of two bytes.\<close>

definition test :: "board \<Rightarrow> int \<Rightarrow> (u8 \<Rightarrow> bool) \<Rightarrow> bool option" where
  "test board k P = do { x \<leftarrow> rd board k; Some (P x) }"

definition test2 :: "board \<Rightarrow> int \<Rightarrow> int \<Rightarrow> (u8 \<Rightarrow> u8 \<Rightarrow> bool) \<Rightarrow> bool option" where
  "test2 board k l P = do { x \<leftarrow> rd board k; y \<leftarrow> rd board l; Some (P x y) }"

text \<open>\<open>if (c) stmt;\<close> with no else branch.\<close>

definition ifThen :: "bool option \<Rightarrow> board option \<Rightarrow> board \<Rightarrow> board option" where
  "ifThen c act board = (case c of None \<Rightarrow> None | Some t \<Rightarrow> if t then act else Some board)"

text \<open>A loop \<open>for (k = 0; k < 64; k++) board[k] op= c\<close>; its accesses are in bounds.\<close>

definition forAll64 :: "(u8 \<Rightarrow> u8) \<Rightarrow> board \<Rightarrow> board" where
  "forAll64 f board = fold (\<lambda>k b. b(k := f (b k))) [0..63] board"

section \<open>removeDots and dotSquare\<close>

definition removeDots :: "board \<Rightarrow> board" where
  "removeDots board = forAll64 (\<lambda>x. x AND 0xbf) board"

text \<open>
  \<open>dotSquare\<close> returns the board and the code 0 (not dotted, piece of the same side),
  1 (empty square dotted) or 2 (occupied square dotted).
\<close>

definition dotSquare :: "board \<Rightarrow> int \<Rightarrow> int \<Rightarrow> (board \<times> nat) option" where
  "dotSquare board pos n = do {
     e \<leftarrow> test board n (\<lambda>x. x AND 7 = NONE);
     if e then do { board \<leftarrow> modify board n (\<lambda>x. x OR 64); Some (board, 1) }
     else do {
       d \<leftarrow> test2 board pos n (\<lambda>p x. drop_bit 3 p AND 1 \<noteq> drop_bit 3 x AND 1);
       if d then do { board \<leftarrow> modify board n (\<lambda>x. x OR 64); Some (board, 2) }
       else Some (board, 0) } }"

text \<open>A call of \<open>dotSquare\<close> whose result is not used.\<close>

definition dotSquareStmt :: "board \<Rightarrow> int \<Rightarrow> int \<Rightarrow> board option" where
  "dotSquareStmt board pos n = map_option fst (dotSquare board pos n)"

section \<open>movePiece\<close>

text \<open>
  The scan \<open>for (j = 0; (board[j] >> 7) == 0; j++);\<close> for the selected square.  It has no
  bound of its own: if no square is selected it reads \<open>board[64]\<close>.
\<close>

function findSelected :: "board \<Rightarrow> int \<Rightarrow> int option" where
  "findSelected board j =
     (case rd board j of
        None \<Rightarrow> None
      | Some x \<Rightarrow> if drop_bit 7 x = 0 then findSelected board (to_u8 (j + 1)) else Some j)"
  by pat_completeness auto
termination
  by (relation "measure (\<lambda>(board, j). nat (64 - j))")
     (auto simp: rd_def to_u8_def split: if_splits)

declare findSelected.simps [simp del]

definition movePawn :: "board \<Rightarrow> int \<Rightarrow> int \<Rightarrow> board option" where
  "movePawn board i j =
     (if i < 8 \<or> i \<ge> 56 then do { s \<leftarrow> rd board j; wr board i ((s AND 8) OR QUEEN) }
      else do {
        ep \<leftarrow> andalso (test board i (\<lambda>x. x AND 7 = NONE)) (Some (j AND 7 \<noteq> i AND 7));
        if ep then do {
          s \<leftarrow> rd board j;
          board \<leftarrow> wr board i (s AND 31);
          if j AND 7 > i AND 7 then wr board (j - 1) NONE else wr board (j + 1) NONE }
        else do {
          s \<leftarrow> rd board j;
          board \<leftarrow> wr board i (s AND 31);
          if i - j = 16 \<or> j - i = 16 then modify board i (\<lambda>x. x OR 32) else Some board } })"

definition moveKingOrRook :: "board \<Rightarrow> int \<Rightarrow> int \<Rightarrow> board option" where
  "moveKingOrRook board i j = do { s \<leftarrow> rd board j; wr board i (s AND 15) }"

definition moveKing :: "board \<Rightarrow> int \<Rightarrow> int \<Rightarrow> board option" where
  "moveKing board i j = do {
     board \<leftarrow>
       (if j - i = 2 then do {
          r \<leftarrow> rd board (i AND 0xf8);
          board \<leftarrow> wr board (i + 1) (r AND 15);
          wr board (i AND 0xf8) NONE }
        else if i - j = 2 then do {
          r \<leftarrow> rd board ((i AND 0xf8) + 7);
          board \<leftarrow> wr board (j + 1) (r AND 15);
          wr board ((i AND 0xf8) + 7) NONE }
        else Some board);
     moveKingOrRook board i j }"

text \<open>The \<open>switch (board[j] & 7)\<close> of \<open>movePiece\<close>; the case \<open>KING\<close> falls through to \<open>ROOK\<close>.\<close>

definition switchPiece :: "board \<Rightarrow> int \<Rightarrow> int \<Rightarrow> board option" where
  "switchPiece board i j = do {
     s \<leftarrow> rd board j;
     if s AND 7 = PAWN then movePawn board i j
     else if s AND 7 = KING then moveKing board i j
     else if s AND 7 = ROOK then moveKingOrRook board i j
     else do { s \<leftarrow> rd board j; wr board i (s AND 63) } }"

definition movePiece :: "board \<Rightarrow> int \<Rightarrow> board option" where
  "movePiece board i = do {
     let board = forAll64 (\<lambda>x. x AND 0xdf) board;
     j \<leftarrow> findSelected board 0;
     let board = removeDots board;
     board \<leftarrow> switchPiece board i j;
     wr board j NONE }"

section \<open>calculateMoves\<close>

abbreviation (input) isNone :: "u8 \<Rightarrow> bool" where "isNone x \<equiv> x AND 7 = NONE"
abbreviation (input) isPiece :: "u8 \<Rightarrow> bool" where "isPiece x \<equiv> x AND 7 \<noteq> 0"
abbreviation (input) isPawn :: "u8 \<Rightarrow> bool" where "isPawn x \<equiv> x AND 7 = PAWN"
abbreviation (input) isRook :: "u8 \<Rightarrow> bool" where "isRook x \<equiv> x AND 7 = ROOK"
abbreviation (input) bit4 :: "u8 \<Rightarrow> bool" where "bit4 x \<equiv> drop_bit 4 x AND 1 \<noteq> 0"
abbreviation (input) bit5 :: "u8 \<Rightarrow> bool" where "bit5 x \<equiv> drop_bit 5 x AND 1 \<noteq> 0"
abbreviation (input) differ :: "u8 \<Rightarrow> u8 \<Rightarrow> bool" where
  "differ x y \<equiv> drop_bit 3 x AND 1 \<noteq> drop_bit 3 y AND 1"
abbreviation (input) setDot :: "u8 \<Rightarrow> u8" where "setDot x \<equiv> x OR 64"

text \<open>The pawn that moves towards increasing indices (lines 262-282).\<close>

definition pawnTop :: "board \<Rightarrow> int \<Rightarrow> board option" where
  "pawnTop board i = do {
     board \<leftarrow> ifThen (andalso (Some (i < 16)) (test board (i + 16) isNone))
                (modify board (i + 16) setDot) board;
     board \<leftarrow> ifThen (andalso (Some (i < 56)) (test board (i + 8) isNone))
                (modify board (i + 8) setDot) board;
     board \<leftarrow> ifThen (andalso (Some (i < 55)) (andalso (Some (i AND 7 \<noteq> 7))
                  (orelse (andalso (test board (i + 9) isPiece) (test2 board (i + 9) i differ))
                     (andalso (test board (i + 1) isPawn) (andalso (test board (i + 1) bit5)
                        (test2 board (i + 1) i differ))))))
                (modify board (i + 9) setDot) board;
     ifThen (andalso (Some (i < 57)) (andalso (Some (i AND 7 \<noteq> 0))
                  (orelse (andalso (test board (i + 7) isPiece) (test2 board (i + 7) i differ))
                     (andalso (test board (i - 1) isPawn) (andalso (test board (i - 1) bit5)
                        (test2 board (i - 1) i differ))))))
                (modify board (i + 7) setDot) board }"

text \<open>The pawn that moves towards decreasing indices (lines 284-304).\<close>

definition pawnBottom :: "board \<Rightarrow> int \<Rightarrow> board option" where
  "pawnBottom board i = do {
     board \<leftarrow> ifThen (andalso (Some (i \<ge> 48)) (test board (i - 16) isNone))
                (modify board (i - 16) setDot) board;
     board \<leftarrow> ifThen (andalso (Some (i \<ge> 8)) (test board (i - 8) isNone))
                (modify board (i - 8) setDot) board;
     board \<leftarrow> ifThen (andalso (Some (i \<ge> 9)) (andalso (Some (i AND 7 \<noteq> 0))
                  (orelse (andalso (test board (i - 9) isPiece) (test2 board (i - 9) i differ))
                     (andalso (test board (i - 1) isPawn) (andalso (test board (i - 1) bit5)
                        (test2 board (i - 1) i differ))))))
                (modify board (i - 9) setDot) board;
     ifThen (andalso (Some (i > 7)) (andalso (Some (i AND 7 \<noteq> 7))
                  (orelse (andalso (test board (i - 7) isPiece) (test2 board (i - 7) i differ))
                     (andalso (test board (i + 1) isPawn) (andalso (test board (i + 1) bit5)
                        (test2 board (i + 1) i differ))))))
                (modify board (i - 7) setDot) board }"

definition knightMoves :: "board \<Rightarrow> int \<Rightarrow> board option" where
  "knightMoves board i = do {
     board \<leftarrow> ifThen (Some (i \<ge> 17 \<and> i AND 7 \<noteq> 0)) (dotSquareStmt board i (to_u8 (i - 17))) board;
     board \<leftarrow> ifThen (Some (i \<ge> 15 \<and> i AND 7 \<noteq> 7)) (dotSquareStmt board i (to_u8 (i - 15))) board;
     board \<leftarrow> ifThen (Some (i \<ge> 10 \<and> i AND 7 > 1)) (dotSquareStmt board i (to_u8 (i - 10))) board;
     board \<leftarrow> ifThen (Some (i \<ge> 6 \<and> i AND 7 < 6)) (dotSquareStmt board i (to_u8 (i - 6))) board;
     board \<leftarrow> ifThen (Some (i < 47 \<and> i AND 7 \<noteq> 7)) (dotSquareStmt board i (to_u8 (i + 17))) board;
     board \<leftarrow> ifThen (Some (i < 49 \<and> i AND 7 \<noteq> 0)) (dotSquareStmt board i (to_u8 (i + 15))) board;
     board \<leftarrow> ifThen (Some (i < 54 \<and> i AND 7 < 6)) (dotSquareStmt board i (to_u8 (i + 10))) board;
     ifThen (Some (i < 58 \<and> i AND 7 > 1)) (dotSquareStmt board i (to_u8 (i + 6))) board }"

text \<open>
  The eight sliding loops of \<open>dotDiagonals\<close> and of the \<open>ROOK\<close> case have one shape,
  \<open>for (j = i + step; cont; j += step) if (dotSquare(board, i, j) != 1) break;\<close>
  and differ in the step and the loop condition.  \<open>j\<close> is a \<open>u8\<close>, so it wraps.
\<close>

datatype dir = UpLeft | UpRight | DownLeft | DownRight | Upward | Leftward | Rightward | Downward

fun step :: "dir \<Rightarrow> int" where
  "step UpLeft = - 9"
| "step UpRight = - 7"
| "step DownLeft = 7"
| "step DownRight = 9"
| "step Upward = - 8"
| "step Leftward = - 1"
| "step Rightward = 1"
| "step Downward = 8"

fun cont :: "dir \<Rightarrow> int \<Rightarrow> bool" where
  "cont UpLeft j = (j < 64 \<and> j AND 7 \<noteq> 7)"
| "cont UpRight j = (j < 64 \<and> j AND 7 \<noteq> 0)"
| "cont DownLeft j = (j < 64 \<and> j AND 7 \<noteq> 7)"
| "cont DownRight j = (j < 64 \<and> j AND 7 \<noteq> 0)"
| "cont Upward j = (j < 64)"
| "cont Leftward j = (j AND 7 \<noteq> 7)"
| "cont Rightward j = (j AND 7 \<noteq> 0)"
| "cont Downward j = (j < 64)"

function slide :: "dir \<Rightarrow> board \<Rightarrow> int \<Rightarrow> int \<Rightarrow> board option" where
  "slide d board i j =
     (if cont d j then
        (case dotSquare board i j of
           None \<Rightarrow> None
         | Some (board', r) \<Rightarrow>
             if r \<noteq> 1 then Some board' else slide d board' i (to_u8 (j + step d)))
      else Some board)"
  by pat_completeness auto
termination
proof (relation "measure (\<lambda>(d, board, i, j).
         if 0 \<le> j \<and> j < 64 then (if step d < 0 then nat (j + 1) else nat (64 - j)) else 0)",
       goal_cases)
  case 1
  show ?case by simp
next
  case (2 d board i j x2 board' r)
  from 2(2) have j: "0 \<le> j" "j < 64"
    by (auto simp: dotSquare_def test_def rd_def split: if_splits)
  have wrap: "k mod 256 = (if k < 0 then k + 256 else k)" if "- 256 \<le> k" "k < 256" for k :: int
  proof (cases "k < 0")
    case True
    have "k mod 256 = (k + 256) mod 256" by simp
    also have "\<dots> = k + 256" using True that by (intro mod_pos_pos_trivial) auto
    finally show ?thesis using True by simp
  next
    case False
    then show ?thesis using that by simp
  qed
  have "- 256 \<le> j + step d" "j + step d < 256" using j by (cases d; simp)+
  from wrap[OF this] j show ?case
    by (cases d) (simp_all add: to_u8_def)
qed

declare slide.simps [simp del]

definition dotDiagonals :: "board \<Rightarrow> int \<Rightarrow> board option" where
  "dotDiagonals board i = do {
     board \<leftarrow> slide UpLeft board i (to_u8 (i - 9));
     board \<leftarrow> slide UpRight board i (to_u8 (i - 7));
     board \<leftarrow> slide DownLeft board i (to_u8 (i + 7));
     slide DownRight board i (to_u8 (i + 9)) }"

text \<open>The four loops of the \<open>ROOK\<close> case (lines 331-338).\<close>

definition dotStraights :: "board \<Rightarrow> int \<Rightarrow> board option" where
  "dotStraights board i = do {
     board \<leftarrow> slide Upward board i (to_u8 (i - 8));
     board \<leftarrow> slide Leftward board i (to_u8 (i - 1));
     board \<leftarrow> slide Rightward board i (to_u8 (i + 1));
     slide Downward board i (to_u8 (i + 8)) }"

text \<open>
  The \<open>KING\<close> case: the eight neighbours (lines 341-356), then castling (lines 358-379),
  with the king on file 3 ("king on left") or elsewhere ("king on right").
\<close>

definition castlingKingOnLeft :: "board \<Rightarrow> int \<Rightarrow> board option" where
  "castlingKingOnLeft board i = do {
     board \<leftarrow> ifThen (andalso (test board (i - 3) isRook) (andalso (test board (i - 3) bit4)
                  (andalso (test board (i - 2) isNone) (test board (i - 1) isNone))))
                (dotSquareStmt board i (to_u8 (i - 2))) board;
     ifThen (andalso (test board (i + 4) isRook) (andalso (test board (i + 4) bit4)
                  (andalso (test board (i + 1) isNone) (andalso (test board (i + 2) isNone)
                     (test board (i + 3) isNone)))))
                (dotSquareStmt board i (to_u8 (i + 2))) board }"

definition castlingKingOnRight :: "board \<Rightarrow> int \<Rightarrow> board option" where
  "castlingKingOnRight board i = do {
     board \<leftarrow> ifThen (andalso (test board (i + 3) isRook) (andalso (test board (i + 3) bit4)
                  (andalso (test board (i + 2) isNone) (test board (i + 1) isNone))))
                (dotSquareStmt board i (to_u8 (i + 2))) board;
     ifThen (andalso (test board (i - 4) isRook) (andalso (test board (i - 4) bit4)
                  (andalso (test board (i - 1) isNone) (andalso (test board (i - 2) isNone)
                     (test board (i - 3) isNone)))))
                (dotSquareStmt board i (to_u8 (i - 2))) board }"

definition castling :: "board \<Rightarrow> int \<Rightarrow> board option" where
  "castling board i = do {
     u \<leftarrow> test board i bit4;
     if u then (if i AND 7 = 3 then castlingKingOnLeft board i else castlingKingOnRight board i)
     else Some board }"

definition kingNeighbours :: "board \<Rightarrow> int \<Rightarrow> board option" where
  "kingNeighbours board i = do {
     board \<leftarrow> ifThen (Some (i \<ge> 8)) (dotSquareStmt board i (to_u8 (i - 8))) board;
     board \<leftarrow> ifThen (Some (i AND 7 \<noteq> 0)) (dotSquareStmt board i (to_u8 (i - 1))) board;
     board \<leftarrow> ifThen (Some (i AND 7 \<noteq> 7)) (dotSquareStmt board i (to_u8 (i + 1))) board;
     board \<leftarrow> ifThen (Some (i < 56)) (dotSquareStmt board i (to_u8 (i + 8))) board;
     board \<leftarrow> ifThen (Some (i \<ge> 9 \<and> i AND 7 \<noteq> 0)) (dotSquareStmt board i (to_u8 (i - 9))) board;
     board \<leftarrow> ifThen (Some (i > 7 \<and> i AND 7 \<noteq> 7)) (dotSquareStmt board i (to_u8 (i - 7))) board;
     board \<leftarrow> ifThen (Some (i < 57 \<and> i AND 7 \<noteq> 0)) (dotSquareStmt board i (to_u8 (i + 7))) board;
     ifThen (Some (i < 55 \<and> i AND 7 \<noteq> 7)) (dotSquareStmt board i (to_u8 (i + 9))) board }"

definition kingMoves :: "board \<Rightarrow> int \<Rightarrow> board option" where
  "kingMoves board i = do { board \<leftarrow> kingNeighbours board i; castling board i }"

text \<open>
  \<open>switch (board[i] & 7)\<close>: the case \<open>QUEEN\<close> falls through to \<open>ROOK\<close>; the values 0 and 7
  match no case.
\<close>

definition calculateMoves :: "board \<Rightarrow> int \<Rightarrow> board option" where
  "calculateMoves board i = do {
     p \<leftarrow> rd board i;
     if p AND 7 = PAWN then do {
       t \<leftarrow> test board i bit4;
       if t then pawnTop board i else pawnBottom board i }
     else if p AND 7 = KNIGHT then knightMoves board i
     else if p AND 7 = BISHOP then dotDiagonals board i
     else if p AND 7 = QUEEN then do { board \<leftarrow> dotDiagonals board i; dotStraights board i }
     else if p AND 7 = ROOK then dotStraights board i
     else if p AND 7 = KING then kingMoves board i
     else Some board }"

section \<open>setupBoard\<close>

definition setupBoard :: "board \<Rightarrow> u8 \<Rightarrow> board" where
  "setupBoard board white_on_top =
     (let (side1, side2, left_middle, right_middle) =
            (if white_on_top \<noteq> 0 then (WHITE, BLACK, KING OR 16, QUEEN)
             else (BLACK, WHITE, QUEEN, KING OR 16))
      in (\<lambda>k. if k = 0 then side1 OR ROOK OR 16
               else if k = 1 then side1 OR KNIGHT
               else if k = 2 then side1 OR BISHOP
               else if k = 3 then side1 OR left_middle
               else if k = 4 then side1 OR right_middle
               else if k = 5 then side1 OR BISHOP
               else if k = 6 then side1 OR KNIGHT
               else if k = 7 then side1 OR ROOK OR 16
               else if 8 \<le> k \<and> k < 16 then side1 OR PAWN OR 16
               else if 16 \<le> k \<and> k < 48 then NONE
               else if 48 \<le> k \<and> k < 56 then side2 OR PAWN
               else if k = 56 then side2 OR ROOK OR 16
               else if k = 57 then side2 OR KNIGHT
               else if k = 58 then side2 OR BISHOP
               else if k = 59 then side2 OR left_middle
               else if k = 60 then side2 OR right_middle
               else if k = 61 then side2 OR BISHOP
               else if k = 62 then side2 OR KNIGHT
               else if k = 63 then side2 OR ROOK OR 16
               else board k))"

section \<open>verifyMove\<close>

text \<open>
  \<open>verifyMove\<close> works on two arrays: the one its caller passes, and its own local
  \<open>u8 board2[64]\<close>.  Both are kept in the state, so that what the function does to the
  caller's array is part of its result.  The local array starts with whatever the stack holds.
\<close>

record arrays =
  caller_board :: board
  board2 :: board

text \<open>
  The loop over the pieces of the side \<open>next_sides_turn\<close> (lines 398-409); the result is
  the returned byte and the local array.
\<close>

fun scanOpponents :: "board \<Rightarrow> u8 \<Rightarrow> int list \<Rightarrow> (u8 \<times> board) option" where
  "scanOpponents b2 next_sides_turn [] = Some (1, b2)"
| "scanOpponents b2 next_sides_turn (j # js) =
     (if b2 j AND 7 \<noteq> 0 \<and> drop_bit 3 (b2 j) AND 1 = next_sides_turn then
        (case calculateMoves b2 j of
           None \<Rightarrow> None
         | Some b2 \<Rightarrow>
             if list_ex (\<lambda>i. drop_bit 6 (b2 i) AND 1 \<noteq> 0 \<and> b2 i AND 7 = KING) [0..63]
             then Some (0, b2)
             else scanOpponents (removeDots b2) next_sides_turn js)
      else scanOpponents b2 next_sides_turn js)"

definition verifyMove :: "arrays \<Rightarrow> int \<Rightarrow> u8 \<Rightarrow> (u8 \<times> arrays) option" where
  "verifyMove st i next_sides_turn = do {
     let st = st\<lparr>board2 := fold (\<lambda>j b2. b2(j := caller_board st j)) [0..63] (board2 st)\<rparr>;
     b2 \<leftarrow> movePiece (board2 st) i;
     (r, b2) \<leftarrow> scanOpponents b2 next_sides_turn [0..63];
     Some (r, st\<lparr>board2 := b2\<rparr>) }"

section \<open>The click handler of main\<close>

text \<open>
  The loop that removes the dots \<open>verifyMove\<close> rejects (lines 570-574).  The local array of
  each call is fresh; the caller's array after the call is the one the call returns.
\<close>

fun filterDots :: "board \<Rightarrow> u8 \<Rightarrow> int list \<Rightarrow> board option" where
  "filterDots b turn [] = Some b"
| "filterDots b turn (j # js) =
     (if drop_bit 6 (b j) AND 1 \<noteq> 0 then
        (case verifyMove \<lparr>caller_board = b, board2 = (\<lambda>k. 0)\<rparr> j turn of
           None \<Rightarrow> None
         | Some (r, st) \<Rightarrow>
             filterDots (if r = 0 then (caller_board st)(j := caller_board st j AND 0xbf)
                         else caller_board st) turn js)
      else filterDots b turn js)"

record game =
  squares :: board
  is_whites_turn :: u8

text \<open>One \<open>SDL_MOUSEBUTTONDOWN\<close> event on square \<open>i\<close> (lines 520-578), drawing left out.\<close>

definition click :: "game \<Rightarrow> int \<Rightarrow> game option" where
  "click g i = do {
     c \<leftarrow> rd (squares g) i;
     if c = 0 then Some g
     else if drop_bit 6 c AND 1 \<noteq> 0 then do {
       b \<leftarrow> movePiece (squares g) i;
       Some \<lparr>squares = b, is_whites_turn = is_whites_turn g XOR 1\<rparr> }
     else if c AND 7 = NONE then Some g
     else if drop_bit 3 c AND 1 = is_whites_turn g then Some g
     else if drop_bit 7 c \<noteq> 0 then Some (g\<lparr>squares := removeDots ((squares g)(i := c AND 127))\<rparr>)
     else do {
       let b = forAll64 (\<lambda>x. x AND 0x3f) (squares g);
       b \<leftarrow> modify b i (\<lambda>x. x OR 128);
       b \<leftarrow> calculateMoves b i;
       b \<leftarrow> filterDots b (is_whites_turn g) [0..63];
       Some (g\<lparr>squares := b\<rparr>) } }"

section \<open>Vocabulary of the properties\<close>

definition ptype :: "u8 \<Rightarrow> u8" where "ptype x = x AND 7"
definition colour :: "u8 \<Rightarrow> u8" where "colour x = drop_bit 3 x AND 1"
definition unmoved :: "u8 \<Rightarrow> bool" where "unmoved x = (drop_bit 4 x AND 1 \<noteq> 0)"
definition enPassant :: "u8 \<Rightarrow> bool" where "enPassant x = (drop_bit 5 x AND 1 \<noteq> 0)"
definition dotted :: "u8 \<Rightarrow> bool" where "dotted x = (drop_bit 6 x AND 1 \<noteq> 0)"
definition selected :: "u8 \<Rightarrow> bool" where "selected x = (drop_bit 7 x \<noteq> 0)"

text \<open>Exactly one of the 64 squares is selected, and it is square \<open>j\<close>.\<close>

definition onlySelected :: "board \<Rightarrow> int \<Rightarrow> bool" where
  "onlySelected b j = (j \<in> {0..63} \<and> (\<forall>k\<in>{0..63}. selected (b k) = (k = j)))"

text \<open>
  The board \<open>movePiece\<close> dispatches on: the en-passant bit and the dot cleared on every
  square.
\<close>

definition cleared :: "board \<Rightarrow> board" where
  "cleared b = removeDots (forAll64 (\<lambda>x. x AND 0xdf) b)"

definition clean :: "u8 \<Rightarrow> bool" where
  "clean x = (\<not> selected x \<and> \<not> dotted x)"

text \<open>
  For a king that goes from \<open>j\<close> to \<open>i\<close>: the corner square of the destination's rank on
  the side the king moves towards, and the square next to the destination on the side the
  king comes from.
\<close>

definition corner :: "int \<Rightarrow> int \<Rightarrow> int" where
  "corner i j = (if i < j then 8 * (i div 8) else 8 * (i div 8) + 7)"

definition beside :: "int \<Rightarrow> int \<Rightarrow> int" where
  "beside i j = (if i < j then i + 1 else i - 1)"

text \<open>
  \<open>b'\<close> is \<open>b\<close> with the dot bit set on some more of the 64 squares, and nothing else
  changed.
\<close>

definition dotsAdded :: "board \<Rightarrow> board \<Rightarrow> bool" where
  "dotsAdded b b' = (\<forall>k. b' k = b k \<or> (0 \<le> k \<and> k < 64 \<and> b' k = b k OR 64))"

text \<open>
  Every king whose unmoved flag is set stands where the castling tests of
  \<open>calculateMoves\<close> stay inside the array: on file 3, or on one of the squares 4..60 (a
  king on its home square, file 3 or 4 of rank 0 or 7, does).
\<close>

definition flaggedKing :: "u8 \<Rightarrow> bool" where
  "flaggedKing x = (ptype x = KING \<and> unmoved x)"

definition castleInBounds :: "board \<Rightarrow> bool" where
  "castleInBounds b = (\<forall>k\<in>{0..63}. ptype (b k) = KING \<and> unmoved (b k) \<longrightarrow>
                         k mod 8 = 3 \<or> (4 \<le> k \<and> k \<le> 60))"

text \<open>
  For a king on square \<open>i\<close>: the corner square of its rank on the left (file 0) or on the
  right (file 7) holds a rook with the unmoved flag, and every square strictly between the
  king and that corner is empty.  These are the tests the code makes; \<open>castleLeftOwn\<close> and
  \<open>castleRightOwn\<close> add that the rook has the king's colour.
\<close>

definition castleLeft :: "board \<Rightarrow> int \<Rightarrow> bool" where
  "castleLeft b i = (ptype (b (8 * (i div 8))) = ROOK \<and> unmoved (b (8 * (i div 8))) \<and>
                     (\<forall>s\<in>{8 * (i div 8) + 1 .. i - 1}. ptype (b s) = NONE))"

definition castleRight :: "board \<Rightarrow> int \<Rightarrow> bool" where
  "castleRight b i = (ptype (b (8 * (i div 8) + 7)) = ROOK \<and> unmoved (b (8 * (i div 8) + 7)) \<and>
                      (\<forall>s\<in>{i + 1 .. 8 * (i div 8) + 6}. ptype (b s) = NONE))"

definition castleLeftOwn :: "board \<Rightarrow> int \<Rightarrow> bool" where
  "castleLeftOwn b i = (castleLeft b i \<and> colour (b (8 * (i div 8))) = colour (b i))"

definition castleRightOwn :: "board \<Rightarrow> int \<Rightarrow> bool" where
  "castleRightOwn b i = (castleRight b i \<and> colour (b (8 * (i div 8) + 7)) = colour (b i))"

text \<open>
  Rays in file and rank terms.  Square \<open>i\<close> has file \<open>i mod 8\<close> and rank \<open>i div 8\<close>;
  a direction changes file and rank by \<open>fileStep\<close> and \<open>rankStep\<close>.  \<open>onBoard i d n\<close>
  says that the \<open>n\<close>-th square from \<open>i\<close> in direction \<open>d\<close> exists, \<open>raySquare i d n\<close>
  is its index.
\<close>

fun fileStep :: "dir \<Rightarrow> int" where
  "fileStep UpLeft = - 1"
| "fileStep UpRight = 1"
| "fileStep DownLeft = - 1"
| "fileStep DownRight = 1"
| "fileStep Upward = 0"
| "fileStep Leftward = - 1"
| "fileStep Rightward = 1"
| "fileStep Downward = 0"

fun rankStep :: "dir \<Rightarrow> int" where
  "rankStep UpLeft = - 1"
| "rankStep UpRight = - 1"
| "rankStep DownLeft = 1"
| "rankStep DownRight = 1"
| "rankStep Upward = - 1"
| "rankStep Leftward = 0"
| "rankStep Rightward = 0"
| "rankStep Downward = 1"

definition onBoard :: "int \<Rightarrow> dir \<Rightarrow> int \<Rightarrow> bool" where
  "onBoard i d n = (0 \<le> i mod 8 + n * fileStep d \<and> i mod 8 + n * fileStep d \<le> 7 \<and>
                    0 \<le> i div 8 + n * rankStep d \<and> i div 8 + n * rankStep d \<le> 7)"

definition raySquare :: "int \<Rightarrow> dir \<Rightarrow> int \<Rightarrow> int" where
  "raySquare i d n = 8 * (i div 8 + n * rankStep d) + (i mod 8 + n * fileStep d)"

text \<open>The directions in which a piece slides: diagonals, orthogonals, or both.\<close>

definition rays :: "u8 \<Rightarrow> dir list" where
  "rays p = (if p = BISHOP then [UpLeft, UpRight, DownLeft, DownRight]
             else if p = ROOK then [Upward, Leftward, Rightward, Downward]
             else if p = QUEEN then [UpLeft, UpRight, DownLeft, DownRight,
                                     Upward, Leftward, Rightward, Downward]
             else [])"

text \<open>
  Every square of the ray before the \<open>n\<close>-th is empty; and the shared square rule marks
  square \<open>s\<close> for the piece on \<open>i\<close>: it is empty or holds the other colour.
\<close>

definition clearTo :: "board \<Rightarrow> int \<Rightarrow> dir \<Rightarrow> int \<Rightarrow> bool" where
  "clearTo b i d n = (\<forall>m\<in>{1..n - 1}. ptype (b (raySquare i d m)) = NONE)"

definition markable :: "board \<Rightarrow> int \<Rightarrow> int \<Rightarrow> bool" where
  "markable b i s = (ptype (b s) = NONE \<or> colour (b s) \<noteq> colour (b i))"

text \<open>
  The loop condition after one more step from square \<open>s\<close> says that the next square in
  file and rank terms is on the board.
\<close>

definition nextOK :: "dir \<Rightarrow> int \<Rightarrow> bool" where
  "nextOK d s = (cont d (to_u8 (s + step d)) =
         (0 \<le> s mod 8 + fileStep d \<and> s mod 8 + fileStep d \<le> 7 \<and>
          0 \<le> s div 8 + rankStep d \<and> s div 8 + rankStep d \<le> 7))"

text \<open>
  What the loop of direction \<open>d\<close> does when it enters at the \<open>n\<close>-th square of the ray,
  on the board \<open>c\<close>: square \<open>k\<close> gets a dot (\<open>hits\<close>) when it is the \<open>m\<close>-th square for
  some \<open>m \<ge> n\<close>, the squares from the \<open>n\<close>-th up to it are empty and the shared rule
  marks it; every other byte stays.
\<close>

definition hits :: "dir \<Rightarrow> int \<Rightarrow> int \<Rightarrow> board \<Rightarrow> int \<Rightarrow> bool" where
  "hits d i n c k = (\<exists>m\<in>{n..7}. onBoard i d m \<and> k = raySquare i d m \<and>
                       (\<forall>l\<in>{n..m - 1}. ptype (c (raySquare i d l)) = NONE) \<and> markable c i k)"

definition rayEffect :: "dir \<Rightarrow> int \<Rightarrow> int \<Rightarrow> board \<Rightarrow> board \<Rightarrow> bool" where
  "rayEffect d i n c c' = (\<forall>k. c' k = (if hits d i n c k then c k OR 64 else c k))"

text \<open>The sliding loops for a list of directions, one after the other.\<close>

fun slideAll :: "dir list \<Rightarrow> board \<Rightarrow> int \<Rightarrow> board option" where
  "slideAll [] b i = Some b"
| "slideAll (d # ds) b i = slide d b i (to_u8 (i + step d)) \<bind> (\<lambda>b. slideAll ds b i)"

text \<open>At most one of the 64 squares carries the en-passant flag.\<close>

definition atMostOneEP :: "board \<Rightarrow> bool" where
  "atMostOneEP b = (\<forall>k\<in>{0..63}. \<forall>l\<in>{0..63}. enPassant (b k) \<and> enPassant (b l) \<longrightarrow> k = l)"

text \<open>Every square that carries the en-passant flag holds a pawn.\<close>

definition flagOnPawns :: "board \<Rightarrow> bool" where
  "flagOnPawns b = (\<forall>k\<in>{0..63}. enPassant (b k) \<longrightarrow> ptype (b k) = PAWN)"

text \<open>
  \<open>b'\<close> has the same piece type and the same en-passant flag as \<open>b\<close> on each of the 64
  squares.
\<close>

definition samePieces :: "board \<Rightarrow> board \<Rightarrow> bool" where
  "samePieces b b' = (\<forall>k\<in>{0..63}. enPassant (b' k) = enPassant (b k) \<and> ptype (b' k) = ptype (b k))"

text \<open>
  The game states that play can reach: \<open>main\<close> sets the board up (with either side on
  top), white moves first, and every event is a click on one of the 64 squares.
\<close>

inductive reachable :: "game \<Rightarrow> bool" where
  start: "reachable \<lparr>squares = setupBoard b0 white_on_top, is_whites_turn = 1\<rparr>"
| event: "reachable g \<Longrightarrow> i \<in> {0..63} \<Longrightarrow> click g i = Some g' \<Longrightarrow> reachable g'"

text \<open>
  \<open>c\<close> is \<open>b\<close> up to the marks: on each of the 64 squares the two bytes agree in the bits
  0 to 5 (piece type, colour, unmoved flag, en-passant flag) and may differ in the dot and in
  the selected bit only.
\<close>

definition sameUpToMarks :: "board \<Rightarrow> board \<Rightarrow> bool" where
  "sameUpToMarks b c = (\<forall>k\<in>{0..63}. c k AND 0x3f = b k AND 0x3f)"

text \<open>
  The unmoved flag tells the truth: every king and every rook that carries it is the piece
  that \<open>setupBoard\<close> (called with \<open>white_on_top = w\<close>) put on that square, with the same
  type, colour and flag.
\<close>

definition unmovedAtHome :: "u8 \<Rightarrow> board \<Rightarrow> bool" where
  "unmovedAtHome w b = (\<forall>k\<in>{0..63}. (ptype (b k) = KING \<or> ptype (b k) = ROOK) \<and> unmoved (b k) \<longrightarrow>
                          b k AND 0x1f = setupBoard (\<lambda>k. NONE) w k)"

text \<open>Square \<open>k\<close> holds the same byte on both boards.\<close>

definition sameAt :: "int \<Rightarrow> board \<Rightarrow> board \<Rightarrow> bool" where
  "sameAt k b b' = (b' k = b k)"

section \<open>Example positions\<close>

definition emptyBoard :: board where
  "emptyBoard = (\<lambda>k. NONE)"

text \<open>A selected black pawn on square 9, and a dot on square 0.\<close>

definition promotionBoard :: board where
  "promotionBoard = emptyBoard(9 := 0x89, 0 := 0x40)"

text \<open>
  A selected unmoved white king on square 3, unmoved white rooks on squares 0 and 7, and a
  dot on square 1.
\<close>

definition castlingBoard :: board where
  "castlingBoard = emptyBoard(3 := 0x96, 0 := 0x14, 7 := 0x14, 1 := 0x40)"

text \<open>A selected white top pawn on square 12, and dots on squares 20 and 28.\<close>

definition doubleStepBoard :: board where
  "doubleStepBoard = emptyBoard(12 := 0x91, 20 := 0x40, 28 := 0x40)"

text \<open>
  The initial position with white on top, after the white knight of square 1 has gone to
  square 16, in front of the pawn of square 8.
\<close>

definition jumpBoard :: board where
  "jumpBoard = (setupBoard emptyBoard 1)(1 := NONE, 16 := WHITE OR KNIGHT)"

text \<open>
  A white top pawn on square 32, beside it on square 33 a black pawn with the en-passant
  flag, and a white knight on square 41, the square diagonally ahead of the white pawn.
\<close>

definition ownPieceBoard :: board where
  "ownPieceBoard = emptyBoard(32 := 0x11, 33 := 0x29, 41 := 0x02)"

text \<open>
  A selected unmoved white king on square 3, unmoved white rooks on the corner squares 0 and
  7, and the white queen on square 4.
\<close>

definition castleReadyBoard :: board where
  "castleReadyBoard = emptyBoard(3 := 0x96, 0 := 0x14, 7 := 0x14, 4 := 0x05)"

text \<open>The initial position with white on top, the knight of square 1 selected.\<close>

definition knightSelectedBoard :: board where
  "knightSelectedBoard = (setupBoard emptyBoard 1)(1 := 0x82)"

text \<open>
  A white queen on square 27, a black pawn two squares above it on square 11, and a white
  knight two squares to its right on square 29.
\<close>

definition slideBoard :: board where
  "slideBoard = emptyBoard(27 := 0x05, 11 := 0x09, 29 := 0x02)"

lemmas example_defs = emptyBoard_def promotionBoard_def castlingBoard_def doubleStepBoard_def
  jumpBoard_def ownPieceBoard_def castleReadyBoard_def knightSelectedBoard_def slideBoard_def

section \<open>Bytes and indices\<close>

lemmas field_defs = ptype_def colour_def unmoved_def enPassant_def dotted_def selected_def

lemma and7: "(i::int) AND 7 = i mod 8"
  using take_bit_eq_mask[of 3 i] by (simp add: take_bit_eq_mod mask_eq_exp_minus_1)

lemma and248: "(i::int) AND 248 = 8 * ((i div 8) mod 32)"
proof -
  have "(248::int) = mask (5 + 3) AND NOT (mask 3)"
    by (simp only: push_bit_mask_eq[symmetric]) (simp add: mask_eq_exp_minus_1 push_bit_eq_mult)
  hence "i AND 248 = i AND mask (5 + 3) AND NOT (mask 3)" by (simp only: and.assoc)
  also have "\<dots> = push_bit 3 (take_bit 5 (drop_bit 3 i))"
    by (simp only: slice_eq_mask)
  also have "\<dots> = 8 * ((i div 8) mod 32)"
    by (simp add: push_bit_eq_mult take_bit_eq_mod drop_bit_eq_div)
  finally show ?thesis .
qed

lemma corner_range:
  "0 \<le> i \<Longrightarrow> i < 64 \<Longrightarrow> 0 \<le> (i::int) AND 248"
  "0 \<le> i \<Longrightarrow> i < 64 \<Longrightarrow> i AND 248 < 64"
  "0 \<le> i \<Longrightarrow> i < 64 \<Longrightarrow> i AND 248 < 57"
  by (simp_all add: and248) presburger

lemma sel_and1: "drop_bit 7 (x::u8) AND 1 = drop_bit 7 x"
  by (rule bit_word_eqI) (auto simp: bit_simps dest: bit_imp_le_length)

lemmas cell_simps = bit.conj_disj_distrib2 and.assoc sel_and1

lemma rd_in [simp]: "0 \<le> k \<Longrightarrow> k < 64 \<Longrightarrow> rd b k = Some (b k)"
  by (simp add: rd_def)

lemma wr_in [simp]: "0 \<le> k \<Longrightarrow> k < 64 \<Longrightarrow> wr b k v = Some (b(k := v))"
  by (simp add: wr_def)

lemma fold_upd_apply:
  "distinct ks \<Longrightarrow> fold (\<lambda>k b. b(k := f (b k))) ks b k = (if k \<in> set ks then f (b k) else b k)"
  by (induction ks arbitrary: b) auto

lemma forAll64_apply: "forAll64 f b k = (if 0 \<le> k \<and> k < 64 then f (b k) else b k)"
  by (auto simp: forAll64_def fold_upd_apply)

lemma removeDots_apply: "removeDots b k = (if 0 \<le> k \<and> k < 64 then b k AND 0xbf else b k)"
  by (simp add: removeDots_def forAll64_apply)

lemma cleared_apply: "cleared b k = (if 0 \<le> k \<and> k < 64 then b k AND 0x9f else b k)"
  by (simp add: cleared_def removeDots_apply forAll64_apply cell_simps)

section \<open>The scan for the selected square\<close>

lemma findSelected_first:
  "0 \<le> j \<Longrightarrow> j \<le> k \<Longrightarrow> k < 64 \<Longrightarrow> selected (b k) \<Longrightarrow>
   \<forall>m. j \<le> m \<and> m < k \<longrightarrow> \<not> selected (b m) \<Longrightarrow> findSelected b j = Some k"
proof (induction b j rule: findSelected.induct)
  case (1 board j)
  show ?case
  proof (cases "j = k")
    case True
    with 1 show ?thesis by (subst findSelected.simps) (simp add: selected_def)
  next
    case False
    with 1 have lt: "j < k" by simp
    with 1 have ns: "drop_bit 7 (board j) = 0" by (simp add: selected_def)
    have u: "to_u8 (j + 1) = j + 1" using 1 lt by (simp add: to_u8_def)
    have "findSelected board (to_u8 (j + 1)) = Some k"
      using 1 lt ns u by (intro "1.IH"[of "board j"]) auto
    with 1 lt ns show ?thesis by (subst findSelected.simps) simp
  qed
qed

lemma selected_clearEP: "selected (x AND 0xdf) = selected x"
  by (simp add: selected_def cell_simps)

lemma findSelected_only:
  assumes "onlySelected b j"
  shows "findSelected (forAll64 (\<lambda>x. x AND 0xdf) b) 0 = Some j"
  using assms
  by (intro findSelected_first) (auto simp: onlySelected_def forAll64_apply selected_clearEP)

section \<open>movePiece returns\<close>

lemma ep_left:
  "0 \<le> j \<Longrightarrow> j < 64 \<Longrightarrow> i mod 8 < j mod 8 \<Longrightarrow> 0 \<le> (j::int) - 1 \<and> j - 1 < 64"
  by presburger

lemma ep_right:
  "0 \<le> j \<Longrightarrow> j < 64 \<Longrightarrow> \<not> i mod 8 < j mod 8 \<Longrightarrow> j mod 8 \<noteq> i mod 8 \<Longrightarrow>
   0 \<le> (j::int) + 1 \<and> j + 1 < 64"
  by presburger

lemma movePawn_eq:
  assumes "0 \<le> i" "i < 64" "0 \<le> j" "j < 64"
  shows "movePawn b i j = Some
     (if i < 8 \<or> 56 \<le> i then b(i := (b j AND 8) OR QUEEN)
      else if b i AND 7 = NONE \<and> j mod 8 \<noteq> i mod 8
        then (b(i := b j AND 31))((if i mod 8 < j mod 8 then j - 1 else j + 1) := NONE)
      else if i - j = 16 \<or> j - i = 16 then b(i := (b j AND 31) OR 32)
      else b(i := b j AND 31))"
  using assms ep_left[of j i] ep_right[of j i]
  by (auto simp: movePawn_def test_def andalso_def modify_def and7)

lemma moveKing_eq:
  assumes "0 \<le> i" "i < 64" "0 \<le> j" "j < 64"
  shows "moveKing b i j = Some
     (if j - i = 2 then b(i + 1 := b (i AND 248) AND 15, i AND 248 := NONE, i := b j AND 15)
      else if i - j = 2
        then b(j + 1 := b ((i AND 248) + 7) AND 15, (i AND 248) + 7 := NONE, i := b j AND 15)
      else b(i := b j AND 15))"
proof -
  have "j - i = 2 \<Longrightarrow> j \<noteq> i + 1 \<and> j \<noteq> i AND 248" using assms by (auto simp: and248)
  moreover have "i - j = 2 \<Longrightarrow> j \<noteq> (i AND 248) + 7" using assms by (auto simp: and248)
  ultimately show ?thesis
    using assms by (auto simp: moveKing_def moveKingOrRook_def corner_range)
qed

lemma switchPiece_Some:
  assumes "0 \<le> i" "i < 64" "0 \<le> j" "j < 64"
  shows "\<exists>m. switchPiece b i j = Some m"
  using assms by (simp add: switchPiece_def movePawn_eq moveKing_eq moveKingOrRook_def)

lemma movePiece_switch_first:
  assumes "findSelected (forAll64 (\<lambda>x. x AND 0xdf) b) 0 = Some j" "0 \<le> j" "j < 64"
    "i \<in> {0..63}"
  shows "\<exists>m. switchPiece (cleared b) i j = Some m \<and> movePiece b i = Some (m(j := NONE))"
proof -
  from assms have r: "0 \<le> i" "i < 64" "0 \<le> j" "j < 64" by auto
  from switchPiece_Some[OF r] obtain m where m: "switchPiece (cleared b) i j = Some m" by blast
  have "movePiece b i = switchPiece (cleared b) i j \<bind> (\<lambda>board. wr board j NONE)"
    by (simp add: movePiece_def assms(1) cleared_def)
  with m r show ?thesis by simp
qed

lemma movePiece_switch:
  assumes "onlySelected b j" "i \<in> {0..63}"
  shows "\<exists>m. switchPiece (cleared b) i j = Some m \<and> movePiece b i = Some (m(j := NONE))"
proof -
  from assms(1) have "0 \<le> j" "j < 64" by (auto simp: onlySelected_def)
  from movePiece_switch_first[OF findSelected_only[OF assms(1)] this assms(2)] show ?thesis .
qed

text \<open>
  C9.  \<open>movePiece\<close> finds the mover by scanning from index 0 for the square whose
  selected bit is set.  When exactly one of the 64 squares is selected (square \<open>j\<close>), the
  scan stops at \<open>j\<close>, an index below 64, so the read of \<open>board[64]\<close> is never reached, and
  \<open>movePiece\<close> runs to completion without an out-of-bounds access, for every destination
  \<open>i\<close> in \<open>0..63\<close>.
\<close>

theorem movePiece_scan_in_bounds:
  assumes "onlySelected b j" "i \<in> {0..63}"
  shows "findSelected (forAll64 (\<lambda>x. x AND 0xdf) b) 0 = Some j \<and> 0 \<le> j \<and> j < 64 \<and>
         (\<exists>b'. movePiece b i = Some b')"
proof -
  from assms(1) have "0 \<le> j" "j < 64" by (auto simp: onlySelected_def)
  moreover from movePiece_switch[OF assms] have "\<exists>b'. movePiece b i = Some b'" by blast
  ultimately show ?thesis using findSelected_only[OF assms(1)] by simp
qed

theorem movePiece_scan_in_bounds_witness:
  "onlySelected doubleStepBoard 12 \<and> (28::int) \<in> {0..63} \<and>
   findSelected (forAll64 (\<lambda>x. x AND 0xdf) doubleStepBoard) 0 = Some 12 \<and>
   (\<exists>b'. movePiece doubleStepBoard 28 = Some b')"
proof -
  have h: "onlySelected doubleStepBoard 12"
    by (simp add: onlySelected_def selected_def example_defs)
  have i: "(28::int) \<in> {0..63}" by simp
  from movePiece_scan_in_bounds[OF h i] h show ?thesis by simp
qed

section \<open>movePiece leaves no selection and no dot\<close>

lemma clean_values:
  "clean (x AND 15)" "clean (x AND 31)" "clean (x AND 63)" "clean ((x AND 8) OR QUEEN)"
  "clean ((x AND 31) OR 32)" "clean NONE"
  by (simp_all add: clean_def field_defs cell_simps)

lemma cleared_clean:
  assumes "onlySelected b j"
  shows "\<forall>k\<in>{0..63}. k \<noteq> j \<longrightarrow> clean (cleared b k)"
  using assms by (auto simp: onlySelected_def cleared_apply clean_def field_defs cell_simps)

lemma movePawn_clean:
  assumes "0 \<le> i" "i < 64" "0 \<le> j" "j < 64" "\<forall>k\<in>{0..63}. k \<noteq> j \<longrightarrow> clean (b k)"
    "movePawn b i j = Some b'"
  shows "\<forall>k\<in>{0..63}. k \<noteq> j \<longrightarrow> clean (b' k)"
  using assms(6) assms(5) unfolding movePawn_eq[OF assms(1-4)]
  by (auto simp: clean_values split: if_splits)

lemma moveKing_clean:
  assumes "0 \<le> i" "i < 64" "0 \<le> j" "j < 64" "\<forall>k\<in>{0..63}. k \<noteq> j \<longrightarrow> clean (b k)"
    "moveKing b i j = Some b'"
  shows "\<forall>k\<in>{0..63}. k \<noteq> j \<longrightarrow> clean (b' k)"
  using assms(6) assms(5) unfolding moveKing_eq[OF assms(1-4)]
  by (auto simp: clean_values split: if_splits)

lemma switchPiece_clean:
  assumes r: "0 \<le> i" "i < 64" "0 \<le> j" "j < 64"
    and c: "\<forall>k\<in>{0..63}. k \<noteq> j \<longrightarrow> clean (b k)"
    and m: "switchPiece b i j = Some m"
  shows "\<forall>k\<in>{0..63}. k \<noteq> j \<longrightarrow> clean (m k)"
proof -
  consider (pawn) "b j AND 7 = PAWN" | (king) "b j AND 7 = KING" | (rook) "b j AND 7 = ROOK"
    | (other) "b j AND 7 \<noteq> PAWN" "b j AND 7 \<noteq> KING" "b j AND 7 \<noteq> ROOK" by blast
  then show ?thesis
  proof cases
    case pawn
    with m r have "movePawn b i j = Some m" by (simp add: switchPiece_def)
    from movePawn_clean[OF r c this] show ?thesis .
  next
    case king
    with m r have "moveKing b i j = Some m" by (simp add: switchPiece_def)
    from moveKing_clean[OF r c this] show ?thesis .
  next
    case rook
    with m r have "m = b(i := b j AND 15)" by (simp add: switchPiece_def moveKingOrRook_def)
    with c show ?thesis by (simp add: clean_values)
  next
    case other
    with m r have "m = b(i := b j AND 63)" by (simp add: switchPiece_def)
    with c show ?thesis by (simp add: clean_values)
  qed
qed

text \<open>
  C10.  After \<open>movePiece(board, i)\<close> has run on a board with exactly one selected square
  \<open>j\<close>, no square of the board has the selected bit set and no square has the dot bit
  set, and the origin square \<open>j\<close> is empty.
\<close>

theorem movePiece_deselects:
  assumes "onlySelected b j" "i \<in> {0..63}"
  shows "\<exists>b'. movePiece b i = Some b' \<and>
           (\<forall>k\<in>{0..63}. \<not> selected (b' k) \<and> \<not> dotted (b' k)) \<and> b' j = NONE"
proof -
  from assms have r: "0 \<le> i" "i < 64" "0 \<le> j" "j < 64" by (auto simp: onlySelected_def)
  from movePiece_switch[OF assms] obtain m where
    m: "switchPiece (cleared b) i j = Some m" "movePiece b i = Some (m(j := NONE))" by blast
  from switchPiece_clean[OF r cleared_clean[OF assms(1)] m(1)]
  have "\<forall>k\<in>{0..63}. clean ((m(j := NONE)) k)"
    by (simp add: clean_values)
  with m(2) show ?thesis by (simp add: clean_def)
qed

theorem movePiece_deselects_witness:
  "onlySelected doubleStepBoard 12 \<and> (28::int) \<in> {0..63} \<and>
   (\<exists>b'. movePiece doubleStepBoard 28 = Some b' \<and>
      (\<forall>k\<in>{0..63}. \<not> selected (b' k) \<and> \<not> dotted (b' k)) \<and> b' 12 = NONE)"
proof -
  have h: "onlySelected doubleStepBoard 12"
    by (simp add: onlySelected_def selected_def example_defs)
  have i: "(28::int) \<in> {0..63}" by simp
  from movePiece_deselects[OF h i] h show ?thesis by simp
qed

section \<open>Promotion and castling in movePiece\<close>

lemma promo_byte:
  "ptype ((x AND 8) OR QUEEN) = QUEEN" "colour ((x AND 8) OR QUEEN) = colour x"
  by (simp_all add: field_defs cell_simps)

text \<open>
  C7.  When \<open>movePiece\<close> moves a pawn from the selected square \<open>j\<close> to another square
  \<open>i\<close> with \<open>i < 8\<close> or \<open>i \<ge> 56\<close>, the destination afterwards holds exactly a queen of
  the pawn's colour (the byte colour-bit \<open>OR QUEEN\<close>, so never a pawn and never another
  piece), and the origin square is empty.
\<close>

theorem movePiece_promotes:
  assumes "onlySelected b j" "ptype (b j) = PAWN" "i \<in> {0..63}" "i < 8 \<or> 56 \<le> i" "i \<noteq> j"
  shows "\<exists>b'. movePiece b i = Some b' \<and> b' i = (b j AND 8) OR QUEEN \<and>
           ptype (b' i) = QUEEN \<and> colour (b' i) = colour (b j) \<and> b' j = NONE"
proof -
  from assms have r: "0 \<le> i" "i < 64" "0 \<le> j" "j < 64" by (auto simp: onlySelected_def)
  from movePiece_switch[OF assms(1,3)] obtain m where
    m: "switchPiece (cleared b) i j = Some m" "movePiece b i = Some (m(j := NONE))" by blast
  have t: "cleared b j AND 7 = PAWN"
    using assms(2) r by (simp add: cleared_apply ptype_def cell_simps)
  have "cleared b j AND 8 = b j AND 8" using r by (simp add: cleared_apply cell_simps)
  with m(1) t r assms(4) have "m = (cleared b)(i := (b j AND 8) OR QUEEN)"
    by (auto simp: switchPiece_def movePawn_eq)
  with m(2) assms(5) show ?thesis by (simp add: promo_byte)
qed

theorem movePiece_promotes_witness:
  "onlySelected promotionBoard 9 \<and> ptype (promotionBoard 9) = PAWN \<and>
   (0::int) \<in> {0..63} \<and> ((0::int) < 8 \<or> (56::int) \<le> 0) \<and> (0::int) \<noteq> 9 \<and>
   (\<exists>b'. movePiece promotionBoard 0 = Some b' \<and> b' 0 = 0x0D \<and>
      ptype (b' 0) = QUEEN \<and> colour (b' 0) = 1 \<and> b' 9 = NONE)"
proof -
  have h: "onlySelected promotionBoard 9"
    by (simp add: onlySelected_def selected_def example_defs)
  have p: "ptype (promotionBoard 9) = PAWN" by (simp add: ptype_def example_defs)
  have i: "(0::int) \<in> {0..63}" "(0::int) < 8 \<or> (56::int) \<le> 0" "(0::int) \<noteq> 9" by simp_all
  have v: "promotionBoard 9 AND 8 OR QUEEN = 0x0D" "colour (promotionBoard 9) = 1"
    by (simp_all add: colour_def example_defs)
  from movePiece_promotes[OF h p i] h p show ?thesis by (simp add: v)
qed

lemma castle_bytes:
  "ptype (x AND 15) = ptype x" "colour (x AND 15) = colour x" "\<not> unmoved (x AND 15)"
  "ptype (x AND 0x9f) = ptype x" "colour (x AND 0x9f) = colour x"
  "(x AND 0x9f) AND 15 = x AND 15"
  by (simp_all add: field_defs cell_simps)

text \<open>
  C6.  When \<open>movePiece\<close> moves a king from the selected square \<open>j\<close> to a square \<open>i\<close> two
  files away (\<open>j - i = 2\<close> or \<open>i - j = 2\<close>) that is not itself the corner square, the
  piece on the corner square of that rank on the side the king moved towards (the rook, when
  castling) stands afterwards on the square next to the king's destination on the side the
  king came from, with its type and colour kept and its unmoved flag cleared; the corner
  square is empty; the king stands on \<open>i\<close> with its unmoved flag cleared; the origin is
  empty.
\<close>

theorem movePiece_castles:
  assumes "onlySelected b j" "ptype (b j) = KING" "i \<in> {0..63}" "j - i = 2 \<or> i - j = 2"
    "i \<noteq> corner i j"
  shows "\<exists>b'. movePiece b i = Some b' \<and>
           b' (beside i j) = b (corner i j) AND 15 \<and>
           ptype (b' (beside i j)) = ptype (b (corner i j)) \<and>
           colour (b' (beside i j)) = colour (b (corner i j)) \<and>
           \<not> unmoved (b' (beside i j)) \<and>
           b' (corner i j) = NONE \<and>
           ptype (b' i) = KING \<and> colour (b' i) = colour (b j) \<and> \<not> unmoved (b' i) \<and>
           b' j = NONE"
proof -
  from assms have r: "0 \<le> i" "i < 64" "0 \<le> j" "j < 64" by (auto simp: onlySelected_def)
  from movePiece_switch[OF assms(1,3)] obtain m where
    m: "switchPiece (cleared b) i j = Some m" "movePiece b i = Some (m(j := NONE))" by blast
  have t: "cleared b j AND 7 = KING"
    using assms(2) r by (simp add: cleared_apply ptype_def cell_simps)
  have c: "i AND 248 = 8 * (i div 8)" using r by (simp add: and248)
  have d: "0 \<le> 8 * (i div 8)" "8 * (i div 8) \<le> 56" "8 * (i div 8) \<le> i" "i \<le> 8 * (i div 8) + 7"
    using r by presburger+
  have cr: "0 \<le> corner i j" "corner i j < 64" using d by (auto simp: corner_def)
  have ne: "corner i j \<noteq> j" "corner i j \<noteq> beside i j" "beside i j \<noteq> j" "beside i j \<noteq> i"
    "i \<noteq> j"
    using assms(4,5) r d by (auto simp: corner_def beside_def)
  have mm: "m = (cleared b)(beside i j := cleared b (corner i j) AND 15, corner i j := NONE,
                    i := cleared b j AND 15)"
    using m(1) t r assms(4) by (auto simp: switchPiece_def moveKing_eq c corner_def beside_def)
  have cj: "cleared b j = b j AND 0x9f" "cleared b (corner i j) = b (corner i j) AND 0x9f"
    using r cr by (simp_all add: cleared_apply)
  show ?thesis
    unfolding m(2) mm using ne assms(2,5) by (simp add: cj castle_bytes)
qed

theorem movePiece_castles_witness:
  "onlySelected castlingBoard 3 \<and>
   ptype (castlingBoard 3) = KING \<and>
   (1::int) \<in> {0..63} \<and> ((3::int) - 1 = 2 \<or> (1::int) - 3 = 2) \<and> 1 \<noteq> corner 1 3 \<and>
   (\<exists>b'. movePiece castlingBoard 1 = Some b' \<and>
      b' 2 = ROOK \<and> b' 0 = NONE \<and> ptype (b' 1) = KING \<and> \<not> unmoved (b' 1) \<and> b' 3 = NONE)"
proof -
  have h: "onlySelected castlingBoard 3"
    by (simp add: onlySelected_def selected_def example_defs)
  have p: "ptype (castlingBoard 3) = KING"
    by (simp add: ptype_def example_defs)
  have i: "(1::int) \<in> {0..63}" "(3::int) - 1 = 2 \<or> (1::int) - 3 = 2" "1 \<noteq> corner 1 3"
    by (simp_all add: corner_def)
  have v: "corner 1 3 = 0" "beside 1 3 = 2" "castlingBoard 0 AND 15 = ROOK"
    by (simp_all add: corner_def beside_def example_defs)
  from movePiece_castles[OF h p i] h p i(3) show ?thesis by (auto simp: v)
qed

section \<open>The move generator only adds dots\<close>

lemma dotsAdded_refl [simp]: "dotsAdded b b"
  by (simp add: dotsAdded_def)

lemma dotsAdded_trans: "dotsAdded a b \<Longrightarrow> dotsAdded b c \<Longrightarrow> dotsAdded a c"
  unfolding dotsAdded_def
proof (intro allI)
  fix k
  assume ab: "\<forall>k. b k = a k \<or> (0 \<le> k \<and> k < 64 \<and> b k = a k OR 64)"
    and bc: "\<forall>k. c k = b k \<or> (0 \<le> k \<and> k < 64 \<and> c k = b k OR 64)"
  have "(a k OR 64) OR 64 = a k OR 64" by (simp add: or.assoc)
  with ab[rule_format, of k] bc[rule_format, of k]
  show "c k = a k \<or> (0 \<le> k \<and> k < 64 \<and> c k = a k OR 64)" by auto
qed

lemma dotsAdded_upd: "0 \<le> k \<Longrightarrow> k < 64 \<Longrightarrow> dotsAdded b (b(k := b k OR 64))"
  by (simp add: dotsAdded_def)

lemma dot_keeps:
  "ptype (x OR 64) = ptype x" "colour (x OR 64) = colour x" "unmoved (x OR 64) = unmoved x"
  "enPassant (x OR 64) = enPassant x" "selected (x OR 64) = selected x"
  "(x OR 64) AND 7 = x AND 7" "drop_bit 3 (x OR 64) AND 1 = drop_bit 3 x AND 1"
  "drop_bit 4 (x OR 64) AND 1 = drop_bit 4 x AND 1" "drop_bit 5 (x OR 64) AND 1 = drop_bit 5 x AND 1"
  "(x OR 64) AND 0xbf = x AND 0xbf" "dotted (x OR 64)"
  by (simp_all add: field_defs cell_simps)

lemma dotsAdded_fields:
  assumes "dotsAdded b b'"
  shows "ptype (b' k) = ptype (b k)" "colour (b' k) = colour (b k)"
    "unmoved (b' k) = unmoved (b k)" "enPassant (b' k) = enPassant (b k)"
    "selected (b' k) = selected (b k)" "b' k AND 7 = b k AND 7"
    "drop_bit 3 (b' k) AND 1 = drop_bit 3 (b k) AND 1"
    "drop_bit 4 (b' k) AND 1 = drop_bit 4 (b k) AND 1"
    "drop_bit 5 (b' k) AND 1 = drop_bit 5 (b k) AND 1"
    "b' k AND 0xbf = b k AND 0xbf" "dotted (b k) \<Longrightarrow> dotted (b' k)"
  using assms[unfolded dotsAdded_def, rule_format, of k] by (auto simp: dot_keeps cell_simps)

lemma modify_Some: "modify b k f = Some b' \<Longrightarrow> 0 \<le> k \<and> k < 64 \<and> b' = b(k := f (b k))"
  by (auto simp: modify_def rd_def wr_def split: if_splits)

lemma modify_frame: "modify b k (\<lambda>x. x OR 64) = Some b' \<Longrightarrow> dotsAdded b b'"
  by (auto dest!: modify_Some simp: dotsAdded_upd)

lemma dotSquare_Some:
  assumes "dotSquare b pos n = Some (b', r)"
  shows "0 \<le> n \<and> n < 64 \<and>
    (if b n AND 7 = NONE then b' = b(n := b n OR 64) \<and> r = 1
     else 0 \<le> pos \<and> pos < 64 \<and>
       (if drop_bit 3 (b pos) AND 1 \<noteq> drop_bit 3 (b n) AND 1 then b' = b(n := b n OR 64) \<and> r = 2
        else b' = b \<and> r = 0))"
  using assms
  by (auto simp: dotSquare_def test_def test2_def modify_def rd_def wr_def
      split: if_splits bind_splits)

lemma dotSquare_eq:
  assumes "0 \<le> n" "n < 64" "0 \<le> pos" "pos < 64"
  shows "dotSquare b pos n = Some
    (if b n AND 7 = NONE then (b(n := b n OR 64), 1)
     else if drop_bit 3 (b pos) AND 1 \<noteq> drop_bit 3 (b n) AND 1 then (b(n := b n OR 64), 2)
     else (b, 0))"
  using assms by (simp add: dotSquare_def test_def test2_def modify_def)

lemma dotSquare_frame: "dotSquare b pos n = Some (b', r) \<Longrightarrow> dotsAdded b b'"
  by (drule dotSquare_Some) (auto simp: dotsAdded_upd split: if_splits)

lemma dotSquareStmt_frame: "dotSquareStmt b pos n = Some b' \<Longrightarrow> dotsAdded b b'"
  by (auto simp: dotSquareStmt_def dest: dotSquare_frame)

lemma ifThen_frame:
  "ifThen c act b = Some b' \<Longrightarrow> (act = Some b' \<Longrightarrow> dotsAdded b b') \<Longrightarrow> dotsAdded b b'"
  by (auto simp: ifThen_def split: option.splits if_splits)

lemma slide_frame: "slide d b i j = Some b' \<Longrightarrow> dotsAdded b b'"
proof (induction d b i j rule: slide.induct)
  case (1 d board i j)
  show ?case
  proof (cases "cont d j")
    case False
    with 1(2) show ?thesis by (simp add: slide.simps)
  next
    case True
    with 1(2) obtain b1 r where s: "dotSquare board i j = Some (b1, r)"
      by (subst (asm) slide.simps) (auto split: option.splits)
    note f = dotSquare_frame[OF s]
    show ?thesis
    proof (cases "r = 1")
      case False
      with 1(2) True s have "b' = b1" by (subst (asm) slide.simps) simp
      with f show ?thesis by simp
    next
      case r: True
      with 1(2) True s have "slide d b1 i (to_u8 (j + step d)) = Some b'"
        by (subst (asm) slide.simps) simp
      from "1.IH"[OF True s refl _ this] r f show ?thesis
        by (auto intro: dotsAdded_trans)
    qed
  qed
qed


lemma ifThen_modify_frame: "ifThen c (modify b k (\<lambda>x. x OR 64)) b = Some b' \<Longrightarrow> dotsAdded b b'"
  by (erule ifThen_frame) (erule modify_frame)

lemma ifThen_dotSquare_frame: "ifThen c (dotSquareStmt b i n) b = Some b' \<Longrightarrow> dotsAdded b b'"
  by (erule ifThen_frame) (erule dotSquareStmt_frame)

lemma bind_frame:
  assumes "(f \<bind> g) = Some b'"
    and "\<And>b1. f = Some b1 \<Longrightarrow> dotsAdded b b1"
    and "\<And>b1. g b1 = Some b' \<Longrightarrow> dotsAdded b1 b'"
  shows "dotsAdded b b'"
  using assms by (auto split: bind_splits intro: dotsAdded_trans)

lemma pawnTop_frame: "pawnTop b i = Some b' \<Longrightarrow> dotsAdded b b'"
  unfolding pawnTop_def
  by (erule bind_frame, erule ifThen_modify_frame)+ (erule ifThen_modify_frame)

lemma pawnBottom_frame: "pawnBottom b i = Some b' \<Longrightarrow> dotsAdded b b'"
  unfolding pawnBottom_def
  by (erule bind_frame, erule ifThen_modify_frame)+ (erule ifThen_modify_frame)

lemma knightMoves_frame: "knightMoves b i = Some b' \<Longrightarrow> dotsAdded b b'"
  unfolding knightMoves_def
  by (erule bind_frame, erule ifThen_dotSquare_frame)+ (erule ifThen_dotSquare_frame)

lemma dotDiagonals_frame: "dotDiagonals b i = Some b' \<Longrightarrow> dotsAdded b b'"
  unfolding dotDiagonals_def
  by (erule bind_frame, erule slide_frame)+ (erule slide_frame)

lemma dotStraights_frame: "dotStraights b i = Some b' \<Longrightarrow> dotsAdded b b'"
  unfolding dotStraights_def
  by (erule bind_frame, erule slide_frame)+ (erule slide_frame)

lemma castlingKingOnLeft_frame: "castlingKingOnLeft b i = Some b' \<Longrightarrow> dotsAdded b b'"
  unfolding castlingKingOnLeft_def
  by (erule bind_frame, erule ifThen_dotSquare_frame) (erule ifThen_dotSquare_frame)

lemma castlingKingOnRight_frame: "castlingKingOnRight b i = Some b' \<Longrightarrow> dotsAdded b b'"
  unfolding castlingKingOnRight_def
  by (erule bind_frame, erule ifThen_dotSquare_frame) (erule ifThen_dotSquare_frame)

lemma castling_frame: "castling b i = Some b' \<Longrightarrow> dotsAdded b b'"
  unfolding castling_def
  by (auto split: bind_splits if_splits dest: castlingKingOnLeft_frame castlingKingOnRight_frame)

lemma kingNeighbours_frame: "kingNeighbours b i = Some b' \<Longrightarrow> dotsAdded b b'"
  unfolding kingNeighbours_def
  by (erule bind_frame, erule ifThen_dotSquare_frame)+ (erule ifThen_dotSquare_frame)

lemma kingMoves_frame: "kingMoves b i = Some b' \<Longrightarrow> dotsAdded b b'"
  unfolding kingMoves_def
  by (erule bind_frame, erule kingNeighbours_frame) (erule castling_frame)

lemma calculateMoves_frame: "calculateMoves b i = Some b' \<Longrightarrow> dotsAdded b b'"
  unfolding calculateMoves_def
  by (auto split: bind_splits if_splits
      intro: dotsAdded_trans[OF dotDiagonals_frame dotStraights_frame]
      dest: pawnTop_frame pawnBottom_frame knightMoves_frame dotDiagonals_frame
        dotStraights_frame kingMoves_frame)

section \<open>The move generator stays inside the board\<close>

lemma bind_total:
  "\<exists>b1. f = Some b1 \<Longrightarrow> (\<And>b1. \<exists>b2. g b1 = Some b2) \<Longrightarrow> \<exists>b2. (f \<bind> g) = Some (b2::board)"
  by auto

lemma ifThen_total:
  "c \<noteq> None \<Longrightarrow> (c = Some True \<Longrightarrow> \<exists>b'. act = Some b') \<Longrightarrow> \<exists>b'. ifThen c act b = Some b'"
  by (auto simp: ifThen_def)

lemma andalso_defined: "p \<noteq> None \<Longrightarrow> (p = Some True \<Longrightarrow> q \<noteq> None) \<Longrightarrow> andalso p q \<noteq> None"
  by (auto simp: andalso_def)

lemma orelse_defined: "p \<noteq> None \<Longrightarrow> (p = Some False \<Longrightarrow> q \<noteq> None) \<Longrightarrow> orelse p q \<noteq> None"
  by (auto simp: orelse_def)

lemma andalso_True: "andalso p q = Some True \<Longrightarrow> p = Some True \<and> q = Some True"
  by (auto simp: andalso_def split: option.splits if_splits)

lemma test_defined: "0 \<le> k \<Longrightarrow> k < 64 \<Longrightarrow> test b k P \<noteq> None"
  by (simp add: test_def)

lemma test2_defined: "0 \<le> k \<Longrightarrow> k < 64 \<Longrightarrow> 0 \<le> l \<Longrightarrow> l < 64 \<Longrightarrow> test2 b k l P \<noteq> None"
  by (simp add: test2_def)

lemma modify_total: "0 \<le> k \<Longrightarrow> k < 64 \<Longrightarrow> \<exists>b'. modify b k f = Some b'"
  by (simp add: modify_def)

lemma dotSquareStmt_total:
  "0 \<le> n \<Longrightarrow> n < 64 \<Longrightarrow> 0 \<le> pos \<Longrightarrow> pos < 64 \<Longrightarrow> \<exists>b'. dotSquareStmt b pos (to_u8 n) = Some b'"
  by (simp add: dotSquareStmt_def dotSquare_eq to_u8_def)

lemmas total_intros = bind_total ifThen_total andalso_defined orelse_defined test_defined
  test2_defined modify_total dotSquareStmt_total

lemma file_nz: "(i::int) mod 8 \<noteq> 0 \<Longrightarrow> 0 \<le> i \<Longrightarrow> 0 < i"
  by (cases "i = 0") auto

lemma file_n7: "(i::int) mod 8 \<noteq> 7 \<Longrightarrow> i < 64 \<Longrightarrow> i < 63"
  by (cases "i = 63") auto

lemma pawnTop_total:
  assumes "0 \<le> i" "i < 64"
  shows "\<exists>b'. pawnTop b i = Some b'"
  unfolding pawnTop_def using assms
  by (intro total_intros) (auto dest!: andalso_True simp: and7 intro: file_nz file_n7)

lemma pawnBottom_total:
  assumes "0 \<le> i" "i < 64"
  shows "\<exists>b'. pawnBottom b i = Some b'"
  unfolding pawnBottom_def using assms
  by (intro total_intros) (auto dest!: andalso_True simp: and7 intro: file_nz file_n7)

lemma knightMoves_total:
  assumes "0 \<le> i" "i < 64"
  shows "\<exists>b'. knightMoves b i = Some b'"
  unfolding knightMoves_def using assms
  by (intro total_intros) (auto simp: and7)

lemma wrap256: "k mod 256 = (if k < 0 then k + 256 else k)" if "- 256 \<le> k" "k < 256" for k :: int
proof (cases "k < 0")
  case True
  have "k mod 256 = (k + 256) mod 256" by simp
  also have "\<dots> = k + 256" using True that by (intro mod_pos_pos_trivial) auto
  finally show ?thesis using True by simp
next
  case False
  then show ?thesis using that by simp
qed

lemma next_val:
  assumes "0 \<le> j" "j < 64" "cont d (to_u8 (j + step d))"
  shows "to_u8 (j + step d) = j + step d \<and> 0 \<le> j + step d \<and> j + step d < 64"
proof -
  have "- 256 \<le> j + step d" "j + step d < 256" using assms(1,2) by (cases d; simp)+
  note w = wrap256[OF this]
  have m: "255 mod 8 = (7::int)" "64 mod 8 = (0::int)" by simp_all
  show ?thesis
  proof (cases d)
    case UpLeft
    with assms w show ?thesis by (auto simp: to_u8_def and7 split: if_splits)
  next
    case UpRight
    with assms w show ?thesis by (auto simp: to_u8_def and7 split: if_splits)
  next
    case DownLeft
    with assms w show ?thesis by (auto simp: to_u8_def and7 split: if_splits)
  next
    case DownRight
    with assms w show ?thesis by (auto simp: to_u8_def and7 split: if_splits)
  next
    case Upward
    with assms w show ?thesis by (auto simp: to_u8_def and7 split: if_splits)
  next
    case Leftward
    show ?thesis
    proof (cases "j = 0")
      case True
      with assms Leftward show ?thesis by (simp add: to_u8_def and7)
    next
      case False
      with assms Leftward show ?thesis by (simp add: to_u8_def and7)
    qed
  next
    case Rightward
    show ?thesis
    proof (cases "j = 63")
      case True
      with assms Rightward show ?thesis by (simp add: to_u8_def and7)
    next
      case False
      with assms Rightward show ?thesis by (simp add: to_u8_def and7)
    qed
  next
    case Downward
    with assms w show ?thesis by (auto simp: to_u8_def and7 split: if_splits)
  qed
qed

lemma slide_total:
  assumes "0 \<le> i" "i < 64" "cont d j \<longrightarrow> 0 \<le> j \<and> j < 64"
  shows "\<exists>b'. slide d b i j = Some b'"
  using assms
proof (induction d b i j rule: slide.induct)
  case (1 d board i j)
  show ?case
  proof (cases "cont d j")
    case False
    then show ?thesis by (simp add: slide.simps)
  next
    case True
    with 1 have j: "0 \<le> j" "j < 64" by auto
    from dotSquare_eq[OF j "1.prems"(1,2), of board]
    obtain p where "dotSquare board i j = Some p" by blast
    then obtain b1 r where s: "dotSquare board i j = Some (b1, r)" by (cases p) auto
    show ?thesis
    proof (cases "r = 1")
      case False
      with True s show ?thesis by (subst slide.simps) simp
    next
      case r: True
      have nx: "cont d (to_u8 (j + step d)) \<longrightarrow> 0 \<le> to_u8 (j + step d) \<and> to_u8 (j + step d) < 64"
      proof
        assume c: "cont d (to_u8 (j + step d))"
        from next_val[OF j c] show "0 \<le> to_u8 (j + step d) \<and> to_u8 (j + step d) < 64" by simp
      qed
      from r have r': "\<not> r \<noteq> 1" by simp
      have "\<exists>b'. slide d b1 i (to_u8 (j + step d)) = Some b'"
        by (rule "1.IH"[OF True s refl r' "1.prems"(1,2) nx])
      with True s r show ?thesis by (subst slide.simps) simp
    qed
  qed
qed

lemma slide_start_total:
  assumes "0 \<le> i" "i < 64"
  shows "\<exists>b'. slide d b i (to_u8 (i + step d)) = Some b'"
proof (rule slide_total[OF assms])
  show "cont d (to_u8 (i + step d)) \<longrightarrow> 0 \<le> to_u8 (i + step d) \<and> to_u8 (i + step d) < 64"
  proof
    assume c: "cont d (to_u8 (i + step d))"
    from next_val[OF assms c] show "0 \<le> to_u8 (i + step d) \<and> to_u8 (i + step d) < 64" by simp
  qed
qed


lemma dotDiagonals_total:
  assumes "0 \<le> i" "i < 64"
  shows "\<exists>b'. dotDiagonals b i = Some b'"
  unfolding dotDiagonals_def
  using slide_start_total[OF assms, of UpLeft] slide_start_total[OF assms, of UpRight]
    slide_start_total[OF assms, of DownLeft] slide_start_total[OF assms, of DownRight]
  by (intro bind_total) simp_all

lemma dotStraights_total:
  assumes "0 \<le> i" "i < 64"
  shows "\<exists>b'. dotStraights b i = Some b'"
  unfolding dotStraights_def
  using slide_start_total[OF assms, of Upward] slide_start_total[OF assms, of Leftward]
    slide_start_total[OF assms, of Rightward] slide_start_total[OF assms, of Downward]
  by (intro bind_total) simp_all

lemma kingNeighbours_total:
  assumes "0 \<le> i" "i < 64"
  shows "\<exists>b'. kingNeighbours b i = Some b'"
  unfolding kingNeighbours_def using assms
  by (intro total_intros) (auto simp: and7 intro: file_nz file_n7)

lemma castlingKingOnLeft_total:
  assumes "0 \<le> i" "i < 64" "i mod 8 = 3"
  shows "\<exists>b'. castlingKingOnLeft b i = Some b'"
proof -
  from assms have "3 \<le> i" "i \<le> 59" by presburger+
  then show ?thesis
    unfolding castlingKingOnLeft_def by (intro total_intros) auto
qed

lemma castlingKingOnRight_total:
  assumes "4 \<le> i" "i \<le> 60"
  shows "\<exists>b'. castlingKingOnRight b i = Some b'"
  using assms unfolding castlingKingOnRight_def by (intro total_intros) auto

lemma castling_total:
  assumes "0 \<le> i" "i < 64" "unmoved (b i) \<longrightarrow> i mod 8 = 3 \<or> (4 \<le> i \<and> i \<le> 60)"
  shows "\<exists>b'. castling b i = Some b'"
  using assms castlingKingOnLeft_total[OF assms(1,2), of b] castlingKingOnRight_total[of i b]
  by (auto simp: castling_def test_def unmoved_def and7)

lemma kingMoves_total:
  assumes "0 \<le> i" "i < 64" "unmoved (b i) \<longrightarrow> i mod 8 = 3 \<or> (4 \<le> i \<and> i \<le> 60)"
  shows "\<exists>b'. kingMoves b i = Some b'"
proof -
  from kingNeighbours_total[OF assms(1,2)] obtain b1 where b1: "kingNeighbours b i = Some b1"
    by blast
  from kingNeighbours_frame[OF b1] have "unmoved (b1 i) = unmoved (b i)"
    by (rule dotsAdded_fields)
  with assms castling_total[of i b1] b1 show ?thesis by (simp add: kingMoves_def)
qed

lemma calculateMoves_total:
  assumes "0 \<le> i" "i < 64" "castleInBounds b"
  shows "\<exists>b'. calculateMoves b i = Some b'"
proof -
  have k: "b i AND 7 = KING \<Longrightarrow> \<exists>b'. kingMoves b i = Some b'"
    using assms by (intro kingMoves_total) (auto simp: castleInBounds_def ptype_def)
  from dotDiagonals_total[OF assms(1,2), of b] obtain b1 where b1: "dotDiagonals b i = Some b1"
    by blast
  show ?thesis
    using assms(1,2) k b1 pawnTop_total[OF assms(1,2), of b] pawnBottom_total[OF assms(1,2), of b]
      knightMoves_total[OF assms(1,2), of b] dotStraights_total[OF assms(1,2), of b]
      dotStraights_total[OF assms(1,2), of b1]
    by (simp add: calculateMoves_def test_def)
qed

lemma castleInBounds_dots: "dotsAdded b b' \<Longrightarrow> castleInBounds b' = castleInBounds b"
  by (simp add: castleInBounds_def dotsAdded_fields)

lemma undot_keeps:
  "ptype (x AND 0xbf) = ptype x" "unmoved (x AND 0xbf) = unmoved x" "colour (x AND 0xbf) = colour x"
  "enPassant (x AND 0xbf) = enPassant x" "selected (x AND 0xbf) = selected x"
  "\<not> dotted (x AND 0xbf)"
  by (simp_all add: field_defs cell_simps)

lemma castleInBounds_removeDots: "castleInBounds (removeDots b) = castleInBounds b"
  by (simp add: castleInBounds_def removeDots_apply undot_keeps)

lemma scanOpponents_total:
  assumes "castleInBounds b" "set js \<subseteq> {0..63}"
  shows "\<exists>r b'. scanOpponents b s js = Some (r, b') \<and> (r = 0 \<or> r = 1)"
  using assms
proof (induction js arbitrary: b)
  case Nil
  then show ?case by simp
next
  case (Cons j js)
  then have j: "0 \<le> j" "j < 64" by auto
  from calculateMoves_total[OF j Cons.prems(1)] obtain b1 where
    b1: "calculateMoves b j = Some b1" by blast
  from calculateMoves_frame[OF b1] Cons.prems(1) have "castleInBounds (removeDots b1)"
    by (simp add: castleInBounds_removeDots castleInBounds_dots)
  from Cons.IH[OF this] Cons.IH[OF Cons.prems(1)] Cons.prems(2) b1 show ?case
    by auto
qed

section \<open>verifyMove\<close>

lemma findSelected_sound:
  "findSelected b j = Some k \<Longrightarrow> 0 \<le> j \<Longrightarrow> j \<le> k \<and> k < 64 \<and> selected (b k)"
proof (induction b j rule: findSelected.induct)
  case (1 board j)
  then show ?case
    by (subst (asm) (2) findSelected.simps)
       (auto simp: rd_def selected_def to_u8_def split: if_splits)
qed

lemma findSelected_exists:
  "0 \<le> j \<Longrightarrow> j \<le> k \<Longrightarrow> k < 64 \<Longrightarrow> selected (b k) \<Longrightarrow> \<exists>m. findSelected b j = Some m"
proof (induction b j rule: findSelected.induct)
  case (1 board j)
  show ?case
  proof (cases "selected (board j)")
    case True
    with 1 show ?thesis by (subst findSelected.simps) (simp add: selected_def)
  next
    case False
    with 1 have lt: "j < k" by (cases "j = k") auto
    from False have ns: "drop_bit 7 (board j) = 0" by (simp add: selected_def)
    have u: "to_u8 (j + 1) = j + 1" using 1 lt by (simp add: to_u8_def)
    have "\<exists>m. findSelected board (to_u8 (j + 1)) = Some m"
      using 1 lt ns u by (intro "1.IH"[of "board j"]) auto
    with 1 lt ns show ?thesis by (subst findSelected.simps) simp
  qed
qed

lemma king_bytes:
  "ptype ((x AND 8) OR QUEEN) \<noteq> KING" "ptype NONE \<noteq> KING" "\<not> unmoved (x AND 15)"
  "ptype (x AND 31) = ptype x" "ptype ((x AND 31) OR 32) = ptype x" "ptype (x AND 63) = ptype x"
  "ptype (x AND 0x9f) = ptype x" "unmoved (x AND 0x9f) = unmoved x"
  by (simp_all add: field_defs cell_simps)

lemma switchPiece_kings:
  assumes r: "0 \<le> i" "i < 64" "0 \<le> j" "j < 64"
    and m: "switchPiece b i j = Some m"
  shows "flaggedKing (m k) \<longrightarrow> flaggedKing (b k)"
proof -
  consider (pawn) "b j AND 7 = PAWN" | (king) "b j AND 7 = KING" | (rook) "b j AND 7 = ROOK"
    | (other) "b j AND 7 \<noteq> PAWN" "b j AND 7 \<noteq> KING" "b j AND 7 \<noteq> ROOK" by blast
  then show ?thesis
  proof cases
    case pawn
    then have p: "ptype (b j) = PAWN" by (simp add: ptype_def)
    from pawn m r have "movePawn b i j = Some m" by (simp add: switchPiece_def)
    then show ?thesis unfolding movePawn_eq[OF r] using p
      by (auto simp: flaggedKing_def king_bytes split: if_splits)
  next
    case king
    with m r have "moveKing b i j = Some m" by (simp add: switchPiece_def)
    then show ?thesis unfolding moveKing_eq[OF r]
      by (auto simp: flaggedKing_def king_bytes split: if_splits)
  next
    case rook
    with m r have "m = b(i := b j AND 15)" by (simp add: switchPiece_def moveKingOrRook_def)
    then show ?thesis by (simp add: flaggedKing_def king_bytes)
  next
    case other
    then have p: "ptype (b j) \<noteq> KING" by (simp add: ptype_def)
    from other m r have "m = b(i := b j AND 63)" by (simp add: switchPiece_def)
    with p show ?thesis by (simp add: flaggedKing_def king_bytes)
  qed
qed

lemma movePiece_castleInBounds:
  assumes "\<exists>k\<in>{0..63}. selected (b k)" "i \<in> {0..63}" "castleInBounds b"
  shows "\<exists>b'. movePiece b i = Some b' \<and> castleInBounds b'"
proof -
  let ?c = "forAll64 (\<lambda>x. x AND 0xdf) b"
  from assms(1) obtain k where k: "0 \<le> k" "k < 64" "selected (?c k)"
    by (auto simp: forAll64_apply selected_clearEP)
  from findSelected_exists[of 0 k ?c] k obtain j where j: "findSelected ?c 0 = Some j" by auto
  from findSelected_sound[OF j] have r: "0 \<le> j" "j < 64" by auto
  from movePiece_switch_first[OF j r assms(2)] obtain m where
    m: "switchPiece (cleared b) i j = Some m" "movePiece b i = Some (m(j := NONE))" by blast
  from assms(2) have i: "0 \<le> i" "i < 64" by auto
  have "castleInBounds (m(j := NONE))"
    unfolding castleInBounds_def
  proof (intro ballI impI)
    fix k :: int
    assume kr: "k \<in> {0..63}" and f: "ptype ((m(j := NONE)) k) = KING \<and> unmoved ((m(j := NONE)) k)"
    then have "k \<noteq> j" by (auto simp: ptype_def)
    with f have "flaggedKing (m k)" by (simp add: flaggedKing_def)
    with switchPiece_kings[OF i r m(1), of k] have "flaggedKing (cleared b k)" by simp
    with kr have "ptype (b k) = KING \<and> unmoved (b k)"
      by (simp add: cleared_apply flaggedKing_def king_bytes)
    with assms(3) kr show "k mod 8 = 3 \<or> (4 \<le> k \<and> k \<le> 60)"
      by (simp add: castleInBounds_def)
  qed
  with m(2) show ?thesis by simp
qed

lemma fold_copy_apply:
  "distinct ks \<Longrightarrow> fold (\<lambda>j b2. b2(j := src j)) ks b2 k = (if k \<in> set ks then src k else b2 k)"
  by (induction ks arbitrary: b2) auto

lemma copy_apply:
  "fold (\<lambda>j b2. b2(j := src j)) [0..63] b2 k = (if 0 \<le> k \<and> k < 64 then src k else b2 k)"
  by (auto simp: fold_copy_apply)

section \<open>The en-passant flag\<close>

lemma ep_bytes:
  "\<not> enPassant ((x AND 8) OR QUEEN)" "\<not> enPassant NONE" "\<not> enPassant (x AND 15)"
  "\<not> enPassant (x AND 31)" "enPassant ((x AND 31) OR 32)"
  "enPassant (x AND 63) = enPassant x" "\<not> enPassant (x AND 0x9f)" "\<not> enPassant (x AND 0xdf)"
  "enPassant (x AND 127) = enPassant x" "enPassant (x AND 0x3f) = enPassant x"
  "enPassant (x OR 128) = enPassant x"
  by (simp_all add: field_defs cell_simps)

lemma same_file: "i - j = 16 \<or> j - i = 16 \<Longrightarrow> (j::int) mod 8 = i mod 8"
proof (erule disjE)
  assume "i - j = 16"
  then have "i = j + 2 * 8" by simp
  then show ?thesis by (simp only: mod_add_self2 mod_mult_self2 mod_mult_self1)
next
  assume "j - i = 16"
  then have "j = i + 2 * 8" by simp
  then show ?thesis by (simp only: mod_mult_self2 mod_mult_self1)
qed

lemma switchPiece_ep:
  assumes r: "0 \<le> i" "i < 64" "0 \<le> j" "j < 64"
    and c: "\<forall>k\<in>{0..63}. \<not> enPassant (b k)"
    and m: "switchPiece b i j = Some m"
    and k: "k \<in> {0..63}"
  shows "enPassant (m k) =
           (k = i \<and> b j AND 7 = PAWN \<and> 8 \<le> i \<and> i < 56 \<and> (i - j = 16 \<or> j - i = 16))"
proof -
  consider (pawn) "b j AND 7 = PAWN" | (king) "b j AND 7 = KING" | (rook) "b j AND 7 = ROOK"
    | (other) "b j AND 7 \<noteq> PAWN" "b j AND 7 \<noteq> KING" "b j AND 7 \<noteq> ROOK" by blast
  then show ?thesis
  proof cases
    case pawn
    from pawn m r have "movePawn b i j = Some m" by (simp add: switchPiece_def)
    then have mm: "m = (if i < 8 \<or> 56 \<le> i then b(i := (b j AND 8) OR QUEEN)
      else if b i AND 7 = NONE \<and> j mod 8 \<noteq> i mod 8
        then (b(i := b j AND 31))((if i mod 8 < j mod 8 then j - 1 else j + 1) := NONE)
      else if i - j = 16 \<or> j - i = 16 then b(i := (b j AND 31) OR 32)
      else b(i := b j AND 31))" unfolding movePawn_eq[OF r] by simp
    note f = same_file[of i j]
    show ?thesis unfolding mm using pawn c f k
      by (auto simp: ep_bytes)
  next
    case king
    with m r have "moveKing b i j = Some m" by (simp add: switchPiece_def)
    then show ?thesis unfolding moveKing_eq[OF r] using king c k
      by (auto simp: ep_bytes split: if_splits)
  next
    case rook
    with m r have "m = b(i := b j AND 15)" by (simp add: switchPiece_def moveKingOrRook_def)
    then show ?thesis using rook c k by (simp add: ep_bytes)
  next
    case other
    from other m r have "m = b(i := b j AND 63)" by (simp add: switchPiece_def)
    with other c k r show ?thesis by (auto simp: ep_bytes)
  qed
qed

lemma type_bytes:
  "ptype (x AND 127) = ptype x" "ptype (x AND 0x3f) = ptype x" "ptype (x OR 128) = ptype x"
  "ptype ((x AND 31) OR 32) = ptype x" "ptype (x AND 0x9f) = ptype x"
  by (simp_all add: field_defs cell_simps)

lemma cleared_noEP: "\<forall>k\<in>{0..63}. \<not> enPassant (cleared b k)"
  by (simp add: cleared_apply ep_bytes)

lemma movePiece_ep_first:
  assumes j: "findSelected (forAll64 (\<lambda>x. x AND 0xdf) b) 0 = Some j" "0 \<le> j" "j < 64"
    and i: "i \<in> {0..63}"
  shows "\<exists>b'. movePiece b i = Some b' \<and>
     (\<forall>k\<in>{0..63}. enPassant (b' k) =
        (k = i \<and> ptype (b j) = PAWN \<and> 8 \<le> i \<and> i < 56 \<and> (i - j = 16 \<or> j - i = 16)))"
proof -
  from i have r: "0 \<le> i" "i < 64" by auto
  from movePiece_switch_first[OF j i] obtain m where
    m: "switchPiece (cleared b) i j = Some m" "movePiece b i = Some (m(j := NONE))" by blast
  have t: "cleared b j AND 7 = ptype (b j)"
    using j by (simp add: cleared_apply ptype_def cell_simps)
  have "enPassant ((m(j := NONE)) k) =
        (k = i \<and> ptype (b j) = PAWN \<and> 8 \<le> i \<and> i < 56 \<and> (i - j = 16 \<or> j - i = 16))"
    if k: "k \<in> {0..63}" for k
    using switchPiece_ep[OF r j(2,3) cleared_noEP m(1) k] t
    by (auto simp: ep_bytes)
  with m(2) show ?thesis by simp
qed

lemma switchPiece_ep_pawn:
  assumes r: "0 \<le> i" "i < 64" "0 \<le> j" "j < 64"
    and m: "switchPiece b i j = Some m"
    and e: "b j AND 7 = PAWN" "8 \<le> i" "i < 56" "i - j = 16 \<or> j - i = 16"
  shows "ptype (m i) = PAWN"
proof -
  from e(1) m r have "movePawn b i j = Some m" by (simp add: switchPiece_def)
  moreover have "ptype ((b j AND 31) OR 32) = PAWN"
    using e(1) by (simp add: type_bytes) (simp add: ptype_def)
  ultimately show ?thesis unfolding movePawn_eq[OF r] using e(2-4) same_file[of i j]
    by auto
qed

lemma movePiece_Some_first:
  assumes "movePiece b i = Some b'"
  shows "\<exists>j. findSelected (forAll64 (\<lambda>x. x AND 0xdf) b) 0 = Some j \<and> 0 \<le> j \<and> j < 64"
proof -
  from assms obtain j where j: "findSelected (forAll64 (\<lambda>x. x AND 0xdf) b) 0 = Some j"
    by (auto simp: movePiece_def Let_def split: bind_splits)
  with findSelected_sound[OF j] show ?thesis by simp
qed

lemma movePiece_atMostOneEP:
  assumes "movePiece b i = Some b'" "i \<in> {0..63}"
  shows "atMostOneEP b'"
proof -
  from movePiece_Some_first[OF assms(1)] obtain j where
    j: "findSelected (forAll64 (\<lambda>x. x AND 0xdf) b) 0 = Some j" "0 \<le> j" "j < 64" by blast
  from movePiece_ep_first[OF j assms(2)] assms(1) show ?thesis
    by (auto simp: atMostOneEP_def)
qed

lemma movePiece_flagOnPawns:
  assumes "movePiece b i = Some b'" "i \<in> {0..63}"
  shows "flagOnPawns b'"
proof -
  from movePiece_Some_first[OF assms(1)] obtain j where
    j: "findSelected (forAll64 (\<lambda>x. x AND 0xdf) b) 0 = Some j" "0 \<le> j" "j < 64" by blast
  from assms(2) have r: "0 \<le> i" "i < 64" by auto
  from movePiece_switch_first[OF j assms(2)] assms(1) obtain m where
    m: "switchPiece (cleared b) i j = Some m" "b' = m(j := NONE)" by auto
  have t: "cleared b j AND 7 = ptype (b j)"
    using j by (simp add: cleared_apply ptype_def cell_simps)
  show ?thesis unfolding flagOnPawns_def
  proof (intro ballI impI)
    fix k :: int
    assume k: "k \<in> {0..63}" and e: "enPassant (b' k)"
    from e m(2) have kj: "k \<noteq> j" by (auto simp: ep_bytes)
    with e m(2) have "enPassant (m k)" by simp
    with switchPiece_ep[OF r j(2,3) cleared_noEP m(1) k]
    have c: "k = i" "cleared b j AND 7 = PAWN" "8 \<le> i" "i < 56" "i - j = 16 \<or> j - i = 16"
      by auto
    from switchPiece_ep_pawn[OF r j(2,3) m(1) c(2-5)] c(1) kj m(2)
    show "ptype (b' k) = PAWN" by simp
  qed
qed

lemma samePieces_atMostOne: "samePieces b b' \<Longrightarrow> atMostOneEP b \<Longrightarrow> atMostOneEP b'"
  by (simp add: samePieces_def atMostOneEP_def)

lemma samePieces_flagOnPawns: "samePieces b b' \<Longrightarrow> flagOnPawns b \<Longrightarrow> flagOnPawns b'"
  by (simp add: samePieces_def flagOnPawns_def)

lemma samePieces_refl [simp]: "samePieces b b"
  by (simp add: samePieces_def)

lemma samePieces_trans: "samePieces a b \<Longrightarrow> samePieces b c \<Longrightarrow> samePieces a c"
  by (simp add: samePieces_def)

lemma dotsAdded_samePieces: "dotsAdded b b' \<Longrightarrow> samePieces b b'"
  by (simp add: samePieces_def dotsAdded_fields)

lemma verifyMove_caller:
  "verifyMove st i s = Some (r, st') \<Longrightarrow> caller_board st' = caller_board st"
  by (auto simp: verifyMove_def Let_def split: bind_splits prod.splits)

lemma filterDots_samePieces: "filterDots b t js = Some b' \<Longrightarrow> samePieces b b'"
proof (induction js arbitrary: b)
  case Nil
  then show ?case by simp
next
  case (Cons j js)
  show ?case
  proof (cases "drop_bit 6 (b j) AND 1 \<noteq> 0")
    case False
    with Cons show ?thesis by simp
  next
    case True
    with Cons.prems obtain r st where
      v: "verifyMove \<lparr>caller_board = b, board2 = (\<lambda>k. 0)\<rparr> j t = Some (r, st)"
      and f: "filterDots (if r = 0 then (caller_board st)(j := caller_board st j AND 0xbf)
                         else caller_board st) t js = Some b'"
      by (auto split: option.splits)
    from verifyMove_caller[OF v] have c: "caller_board st = b" by simp
    have "samePieces b (if r = 0 then b(j := b j AND 0xbf) else b)"
      by (simp add: samePieces_def undot_keeps)
    with Cons.IH[OF f] c show ?thesis by (auto intro: samePieces_trans)
  qed
qed

lemma click_samePieces_or_move:
  assumes "click g i = Some g'" "i \<in> {0..63}"
  shows "samePieces (squares g) (squares g') \<or> movePiece (squares g) i = Some (squares g')"
proof -
  from assms(2) have r: "0 \<le> i" "i < 64" by auto
  let ?c = "squares g i"
  let ?b = "squares g"
  consider (idle) "g' = g"
    | (move) "movePiece ?b i = Some (squares g')"
    | (deselect) "squares g' = removeDots (?b(i := ?c AND 127))"
    | (select) b1 where "calculateMoves ((forAll64 (\<lambda>x. x AND 0x3f) ?b)
                 (i := forAll64 (\<lambda>x. x AND 0x3f) ?b i OR 128)) i = Some b1"
        "filterDots b1 (is_whites_turn g) [0..63] = Some (squares g')"
    using assms(1) r
    by (auto simp: click_def Let_def modify_def split: if_splits bind_splits)
  then show ?thesis
  proof cases
    case idle
    then show ?thesis by simp
  next
    case move
    then show ?thesis by simp
  next
    case deselect
    then show ?thesis by (simp add: samePieces_def removeDots_apply undot_keeps ep_bytes type_bytes)
  next
    case select
    have "samePieces ?b ((forAll64 (\<lambda>x. x AND 0x3f) ?b)(i := forAll64 (\<lambda>x. x AND 0x3f) ?b i OR 128))"
      by (simp add: samePieces_def forAll64_apply ep_bytes type_bytes)
    with dotsAdded_samePieces[OF calculateMoves_frame[OF select(1)]] filterDots_samePieces[OF select(2)]
    show ?thesis by (blast intro: samePieces_trans)
  qed
qed

lemma setupBoard_noEP: "k \<in> {0..63} \<Longrightarrow> \<not> enPassant (setupBoard b0 w k)"
  by (simp add: setupBoard_def enPassant_def Let_def)

lemma reachable_ep: "reachable g \<Longrightarrow> atMostOneEP (squares g) \<and> flagOnPawns (squares g)"
proof (induction rule: reachable.induct)
  case (start b0 w)
  then show ?case by (simp add: atMostOneEP_def flagOnPawns_def setupBoard_noEP)
next
  case (event g i g')
  from click_samePieces_or_move[OF event(3,2)] show ?case
  proof
    assume "samePieces (squares g) (squares g')"
    with event.IH show ?thesis by (blast intro: samePieces_atMostOne samePieces_flagOnPawns)
  next
    assume "movePiece (squares g) i = Some (squares g')"
    from movePiece_atMostOneEP[OF this event(2)] movePiece_flagOnPawns[OF this event(2)]
    show ?thesis by simp
  qed
qed

lemma movePiece_ep_only_destination:
  assumes "movePiece b i = Some b'" "i \<in> {0..63}"
  shows "\<forall>k\<in>{0..63}. enPassant (b' k) \<longrightarrow> k = i \<and> ptype (b' k) = PAWN"
proof -
  from movePiece_Some_first[OF assms(1)] obtain j where
    j: "findSelected (forAll64 (\<lambda>x. x AND 0xdf) b) 0 = Some j" "0 \<le> j" "j < 64" by blast
  from movePiece_ep_first[OF j assms(2)] assms(1)
  have "\<forall>k\<in>{0..63}. enPassant (b' k) \<longrightarrow> k = i" by auto
  with movePiece_flagOnPawns[OF assms] show ?thesis by (auto simp: flagOnPawns_def)
qed

text \<open>
  C4.  \<open>movePiece\<close> first clears the en-passant flag on each of the 64 squares.  After it
  has run (one selected square \<open>j\<close>, destination \<open>i\<close>), a square carries the flag
  exactly when it is the destination \<open>i\<close>, the mover is a pawn and \<open>i\<close> is two ranks from
  \<open>j\<close> (\<open>i - j = 16\<close> or \<open>j - i = 16\<close>; a destination on rank 0 or 7 is a promotion and gets
  no flag).  After any application of \<open>movePiece\<close> only its own destination can carry the
  flag, so no flag outlives the next move application; every other click leaves the flags
  as they are.  In every reachable game state at most one square carries the flag, and that
  square holds a pawn.
\<close>

theorem enPassant_one_ply:
  "(\<forall>k\<in>{0..63}. \<not> enPassant (forAll64 (\<lambda>x. x AND 0xdf) b k)) \<and>
   (onlySelected b j \<and> i \<in> {0..63} \<longrightarrow>
      (\<exists>b'. movePiece b i = Some b' \<and>
         (\<forall>k\<in>{0..63}. enPassant (b' k) =
            (k = i \<and> ptype (b j) = PAWN \<and> 8 \<le> i \<and> i < 56 \<and> (i - j = 16 \<or> j - i = 16))))) \<and>
   (movePiece c i' = Some c' \<and> i' \<in> {0..63} \<longrightarrow>
      (\<forall>k\<in>{0..63}. enPassant (c' k) \<longrightarrow> k = i' \<and> ptype (c' k) = PAWN)) \<and>
   (click g i'' = Some g' \<and> i'' \<in> {0..63} \<longrightarrow>
      samePieces (squares g) (squares g') \<or> movePiece (squares g) i'' = Some (squares g')) \<and>
   (reachable h \<longrightarrow> atMostOneEP (squares h) \<and> flagOnPawns (squares h))"
proof (intro conjI impI)
  show "\<forall>k\<in>{0..63}. \<not> enPassant (forAll64 (\<lambda>x. x AND 0xdf) b k)"
    by (simp add: forAll64_apply ep_bytes)
next
  assume a: "onlySelected b j \<and> i \<in> {0..63}"
  then have j: "0 \<le> j" "j < 64" by (auto simp: onlySelected_def)
  from movePiece_ep_first[OF findSelected_only j] a
  show "\<exists>b'. movePiece b i = Some b' \<and>
         (\<forall>k\<in>{0..63}. enPassant (b' k) =
            (k = i \<and> ptype (b j) = PAWN \<and> 8 \<le> i \<and> i < 56 \<and> (i - j = 16 \<or> j - i = 16)))"
    by blast
next
  assume "movePiece c i' = Some c' \<and> i' \<in> {0..63}"
  with movePiece_ep_only_destination[of c i' c']
  show "\<forall>k\<in>{0..63}. enPassant (c' k) \<longrightarrow> k = i' \<and> ptype (c' k) = PAWN"
    by blast
next
  assume "click g i'' = Some g' \<and> i'' \<in> {0..63}"
  with click_samePieces_or_move[of g i'' g']
  show "samePieces (squares g) (squares g') \<or> movePiece (squares g) i'' = Some (squares g')"
    by blast
next
  assume "reachable h"
  then show "atMostOneEP (squares h)" by (simp add: reachable_ep)
next
  assume "reachable h"
  then show "flagOnPawns (squares h)" by (simp add: reachable_ep)
qed

text \<open>
  The double step of the pawn of \<open>doubleStepBoard\<close> from square 12 to square 28, and the
  initial position.
\<close>

theorem enPassant_one_ply_witness:
  "onlySelected doubleStepBoard 12 \<and> (28::int) \<in> {0..63} \<and>
   (\<exists>b'. movePiece doubleStepBoard 28 = Some b' \<and> enPassant (b' 28) \<and> \<not> enPassant (b' 20) \<and>
      ptype (b' 28) = PAWN) \<and>
   click \<lparr>squares = doubleStepBoard, is_whites_turn = 1\<rparr> 28 \<noteq> None \<and>
   reachable \<lparr>squares = setupBoard emptyBoard 1, is_whites_turn = 1\<rparr> \<and>
   atMostOneEP (squares \<lparr>squares = setupBoard emptyBoard 1, is_whites_turn = 1\<rparr>)"
proof -
  have h: "onlySelected doubleStepBoard 12"
    by (simp add: onlySelected_def selected_def example_defs)
  have p: "ptype (doubleStepBoard 12) = PAWN" by (simp add: ptype_def example_defs)
  have i: "(28::int) \<in> {0..63}" by simp
  have r: "reachable \<lparr>squares = setupBoard emptyBoard 1, is_whites_turn = 1\<rparr>"
    by (rule reachable.start)
  note t = enPassant_one_ply[where b = doubleStepBoard and j = 12 and i = 28
      and c = doubleStepBoard and i' = 28
      and g = "\<lparr>squares = doubleStepBoard, is_whites_turn = 1\<rparr>" and i'' = 28
      and h = "\<lparr>squares = setupBoard emptyBoard 1, is_whites_turn = 1\<rparr>"]
  from t h i p have "\<exists>b'. movePiece doubleStepBoard 28 = Some b' \<and>
      (\<forall>k\<in>{0..63}. enPassant (b' k) = (k = 28))"
    by simp
  then obtain b' where m: "movePiece doubleStepBoard 28 = Some b'"
    and e: "\<forall>k\<in>{0..63}. enPassant (b' k) = (k = 28)" by blast
  from e have e1: "enPassant (b' 28)" "\<not> enPassant (b' 20)" by simp_all
  from t[where c' = b'] m e1(1) have q: "ptype (b' 28) = PAWN" by simp
  have c: "click \<lparr>squares = doubleStepBoard, is_whites_turn = 1\<rparr> 28 \<noteq> None"
    using m by (simp add: click_def example_defs)
  from t r have a: "atMostOneEP (squares \<lparr>squares = setupBoard emptyBoard 1, is_whites_turn = 1\<rparr>)"
    by simp
  from h m e1 q c r a show ?thesis by simp
qed

section \<open>Pawn moves of calculateMoves on two positions\<close>

lemmas eval_defs = calculateMoves_def pawnTop_def pawnBottom_def ifThen_def andalso_def
  orelse_def test_def test2_def modify_def rd_def wr_def

text \<open>
  C1.  The claim: the square two ranks ahead of a pawn is marked only when the pawn stands
  on its starting rank and both the square one rank ahead and the square two ranks ahead are
  empty.  The code tests only \<open>(i < 16) && ((board[i+16] & 7) == NONE)\<close>.  In the
  position \<open>jumpBoard\<close> the white pawn of square 8 has a knight in front of it on square
  16, and \<open>calculateMoves\<close> still puts a dot on square 24.
\<close>

theorem pawn_jumps_over_piece:
  "\<exists>b'. calculateMoves jumpBoard 8 = Some b' \<and> ptype (jumpBoard 8) = PAWN \<and>
     ptype (jumpBoard 16) = KNIGHT \<and> \<not> dotted (jumpBoard 24) \<and> dotted (b' 24)"
  by (simp add: eval_defs example_defs setupBoard_def field_defs)

text \<open>
  C2.  The claim: \<open>calculateMoves\<close> never puts a dot on a square that holds a piece of
  the mover's colour, en-passant markings included.  The en-passant disjunct of the pawn's
  capture test looks only at the square beside the pawn, never at the square that gets the
  dot.  In the position \<open>ownPieceBoard\<close> the white pawn of square 32 has a black pawn
  with the en-passant flag beside it on square 33, and \<open>calculateMoves\<close> puts a dot on
  square 41, which holds a white knight.
\<close>

theorem enPassant_dots_own_piece:
  "\<exists>b'. calculateMoves ownPieceBoard 32 = Some b' \<and>
     ptype (ownPieceBoard 41) = KNIGHT \<and> colour (ownPieceBoard 41) = colour (ownPieceBoard 32) \<and>
     \<not> dotted (ownPieceBoard 41) \<and> dotted (b' 41)"
  by (simp add: eval_defs example_defs field_defs)

section \<open>Kings and rooks that have not moved\<close>


lemma low5:
  "ptype (x AND 0x1f) = ptype x" "colour (x AND 0x1f) = colour x" "unmoved (x AND 0x1f) = unmoved x"
  by (simp_all add: field_defs cell_simps)

lemma low6:
  "ptype (x AND 0x3f) = ptype x" "colour (x AND 0x3f) = colour x" "unmoved (x AND 0x3f) = unmoved x"
  "(x AND 0x3f) AND 0x1f = x AND 0x1f"
  by (simp_all add: field_defs cell_simps)

lemma marks_fields:
  assumes "c AND 0x3f = b AND (0x3f::u8)"
  shows "ptype c = ptype b" "colour c = colour b" "unmoved c = unmoved b" "c AND 0x1f = b AND 0x1f"
proof -
  show "ptype c = ptype b" using low6(1)[of c] low6(1)[of b] assms by simp
  show "colour c = colour b" using low6(2)[of c] low6(2)[of b] assms by simp
  show "unmoved c = unmoved b" using low6(3)[of c] low6(3)[of b] assms by simp
  show "c AND 0x1f = b AND 0x1f" using low6(4)[of c] low6(4)[of b] assms by simp
qed

lemma setup_indep: "k \<in> {0..63} \<Longrightarrow> setupBoard b0 w k = setupBoard (\<lambda>k. NONE) w k"
  by (auto simp: setupBoard_def Let_def)

lemma setup_low5: "k \<in> {0..63} \<Longrightarrow> setupBoard b0 w k AND 0x1f = setupBoard b0 w k"
  by (auto simp: setupBoard_def Let_def)

lemma setup_king:
  "k \<in> {0..63} \<Longrightarrow> ptype (setupBoard b0 w k) = KING \<Longrightarrow> k = 3 \<or> k = 4 \<or> k = 59 \<or> k = 60"
  by (auto simp: setupBoard_def Let_def ptype_def split: if_splits)

lemma setup_colour:
  "k \<in> {0..63} \<Longrightarrow> ptype (setupBoard b0 w k) \<noteq> NONE \<Longrightarrow>
   colour (setupBoard b0 w k) = (if (k < 32) = (w \<noteq> 0) then 0 else 1)"
  by (auto simp: setupBoard_def Let_def ptype_def colour_def split: if_splits)

lemma rook_bytes:
  "ptype ((x AND 8) OR QUEEN) \<noteq> ROOK" "ptype NONE \<noteq> ROOK"
  by (simp_all add: field_defs cell_simps)

lemma switchPiece_flagged:
  assumes r: "0 \<le> i" "i < 64" "0 \<le> j" "j < 64"
    and m: "switchPiece b i j = Some m"
  shows "(ptype (m k) = KING \<or> ptype (m k) = ROOK) \<and> unmoved (m k) \<longrightarrow> m k = b k"
proof -
  consider (pawn) "b j AND 7 = PAWN" | (king) "b j AND 7 = KING" | (rook) "b j AND 7 = ROOK"
    | (other) "b j AND 7 \<noteq> PAWN" "b j AND 7 \<noteq> KING" "b j AND 7 \<noteq> ROOK" by blast
  then show ?thesis
  proof cases
    case pawn
    then have p: "ptype (b j) = PAWN" by (simp add: ptype_def)
    from pawn m r have "movePawn b i j = Some m" by (simp add: switchPiece_def)
    then show ?thesis unfolding movePawn_eq[OF r] using p
      by (auto simp: king_bytes rook_bytes split: if_splits)
  next
    case king
    with m r have "moveKing b i j = Some m" by (simp add: switchPiece_def)
    then show ?thesis unfolding moveKing_eq[OF r]
      by (auto simp: king_bytes rook_bytes split: if_splits)
  next
    case rook
    with m r have "m = b(i := b j AND 15)" by (simp add: switchPiece_def moveKingOrRook_def)
    then show ?thesis by (simp add: king_bytes)
  next
    case other
    then have p: "ptype (b j) \<noteq> KING" "ptype (b j) \<noteq> ROOK" by (simp_all add: ptype_def)
    from other m r have "m = b(i := b j AND 63)" by (simp add: switchPiece_def)
    with p show ?thesis by (simp add: king_bytes)
  qed
qed

lemma movePiece_home:
  assumes "movePiece b i = Some b'" "i \<in> {0..63}" "unmovedAtHome w b"
  shows "unmovedAtHome w b'"
proof -
  from movePiece_Some_first[OF assms(1)] obtain j where
    j: "findSelected (forAll64 (\<lambda>x. x AND 0xdf) b) 0 = Some j" "0 \<le> j" "j < 64" by blast
  from assms(2) have i: "0 \<le> i" "i < 64" by auto
  from movePiece_switch_first[OF j assms(2)] assms(1) obtain m where
    m: "switchPiece (cleared b) i j = Some m" "b' = m(j := NONE)" by auto
  show ?thesis unfolding unmovedAtHome_def
  proof (intro ballI impI)
    fix k :: int
    assume kr: "k \<in> {0..63}"
      and f: "(ptype (b' k) = KING \<or> ptype (b' k) = ROOK) \<and> unmoved (b' k)"
    from f m(2) have kj: "k \<noteq> j" by (auto simp: ptype_def)
    with f m(2) have fm: "(ptype (m k) = KING \<or> ptype (m k) = ROOK) \<and> unmoved (m k)" by simp
    with switchPiece_flagged[OF i j(2,3) m(1), of k] have e: "m k = cleared b k" by simp
    with kr have e2: "m k = b k AND 0x9f" by (simp add: cleared_apply)
    from fm have fb: "(ptype (b k) = KING \<or> ptype (b k) = ROOK) \<and> unmoved (b k)"
      unfolding e2 by (simp add: king_bytes)
    with assms(3) kr have "b k AND 0x1f = setupBoard (\<lambda>k. NONE) w k"
      by (simp add: unmovedAtHome_def)
    moreover have "(b k AND 0x9f) AND 0x1f = b k AND 0x1f" by (simp add: cell_simps)
    ultimately show "b' k AND 0x1f = setupBoard (\<lambda>k. NONE) w k"
      using kj m(2) e2 by simp
  qed
qed

lemma sameUpToMarks_refl [simp]: "sameUpToMarks b b"
  by (simp add: sameUpToMarks_def)

lemma sameUpToMarks_trans: "sameUpToMarks a b \<Longrightarrow> sameUpToMarks b c \<Longrightarrow> sameUpToMarks a c"
  by (simp add: sameUpToMarks_def)

lemma sameUpToMarks_home: "sameUpToMarks b c \<Longrightarrow> unmovedAtHome w b \<Longrightarrow> unmovedAtHome w c"
  unfolding sameUpToMarks_def unmovedAtHome_def
  by (metis marks_fields(1,3,4))

lemma mark_bytes:
  "(x OR 64) AND 0x3f = x AND (0x3f::u8)" "(x AND 0xbf) AND 0x3f = x AND (0x3f::u8)"
  "(x AND 127) AND 0x3f = x AND (0x3f::u8)" "(x AND 0x3f) AND 0x3f = x AND (0x3f::u8)"
  "(x OR 128) AND 0x3f = x AND (0x3f::u8)"
  by (simp_all add: cell_simps)

lemma dotsAdded_marks: "dotsAdded b b' \<Longrightarrow> sameUpToMarks b b'"
  unfolding sameUpToMarks_def dotsAdded_def
  by (metis mark_bytes(1))

lemma filterDots_marks: "filterDots b t js = Some b' \<Longrightarrow> sameUpToMarks b b'"
proof (induction js arbitrary: b)
  case Nil
  then show ?case by simp
next
  case (Cons j js)
  show ?case
  proof (cases "drop_bit 6 (b j) AND 1 \<noteq> 0")
    case False
    with Cons show ?thesis by simp
  next
    case True
    with Cons.prems obtain r st where
      v: "verifyMove \<lparr>caller_board = b, board2 = (\<lambda>k. 0)\<rparr> j t = Some (r, st)"
      and f: "filterDots (if r = 0 then (caller_board st)(j := caller_board st j AND 0xbf)
                         else caller_board st) t js = Some b'"
      by (auto split: option.splits)
    from verifyMove_caller[OF v] have c: "caller_board st = b" by simp
    have "sameUpToMarks b (if r = 0 then b(j := b j AND 0xbf) else b)"
      by (simp add: sameUpToMarks_def mark_bytes)
    with Cons.IH[OF f] c show ?thesis by (auto intro: sameUpToMarks_trans)
  qed
qed

lemma click_marks_or_move:
  assumes "click g i = Some g'" "i \<in> {0..63}"
  shows "sameUpToMarks (squares g) (squares g') \<or> movePiece (squares g) i = Some (squares g')"
proof -
  from assms(2) have r: "0 \<le> i" "i < 64" by auto
  let ?c = "squares g i"
  let ?b = "squares g"
  consider (idle) "g' = g"
    | (move) "movePiece ?b i = Some (squares g')"
    | (deselect) "squares g' = removeDots (?b(i := ?c AND 127))"
    | (select) b1 where "calculateMoves ((forAll64 (\<lambda>x. x AND 0x3f) ?b)
                 (i := forAll64 (\<lambda>x. x AND 0x3f) ?b i OR 128)) i = Some b1"
        "filterDots b1 (is_whites_turn g) [0..63] = Some (squares g')"
    using assms(1) r
    by (auto simp: click_def Let_def modify_def split: if_splits bind_splits)
  then show ?thesis
  proof cases
    case idle
    then show ?thesis by simp
  next
    case move
    then show ?thesis by simp
  next
    case deselect
    then show ?thesis by (simp add: sameUpToMarks_def removeDots_apply mark_bytes)
  next
    case select
    have "sameUpToMarks ?b ((forAll64 (\<lambda>x. x AND 0x3f) ?b)(i := forAll64 (\<lambda>x. x AND 0x3f) ?b i OR 128))"
      by (simp add: sameUpToMarks_def forAll64_apply mark_bytes)
    with dotsAdded_marks[OF calculateMoves_frame[OF select(1)]] filterDots_marks[OF select(2)]
    show ?thesis by (blast intro: sameUpToMarks_trans)
  qed
qed

lemma setupBoard_home: "unmovedAtHome w (setupBoard b0 w)"
  unfolding unmovedAtHome_def using setup_indep[of _ b0 w] setup_low5[of _ b0 w] by simp

lemma reachable_home: "reachable g \<Longrightarrow> \<exists>w. unmovedAtHome w (squares g)"
proof (induction rule: reachable.induct)
  case (start b0 w)
  then show ?case using setupBoard_home[of w b0] by auto
next
  case (event g i g')
  then obtain w where w: "unmovedAtHome w (squares g)" by blast
  from click_marks_or_move[OF event(3,2)] show ?case
  proof
    assume "sameUpToMarks (squares g) (squares g')"
    with w show ?thesis by (blast intro: sameUpToMarks_home)
  next
    assume "movePiece (squares g) i = Some (squares g')"
    from movePiece_home[OF this event(2) w] show ?thesis by blast
  qed
qed

lemma home_king:
  assumes "unmovedAtHome w b" "k \<in> {0..63}" "ptype (b k) = KING" "unmoved (b k)"
  shows "k = 3 \<or> k = 4 \<or> k = 59 \<or> k = 60"
proof -
  from assms have e: "b k AND 0x1f = setupBoard (\<lambda>k. NONE) w k" by (simp add: unmovedAtHome_def)
  from low5(1)[of "b k"] assms(3) have "ptype (setupBoard (\<lambda>k. NONE) w k) = KING"
    unfolding e by simp
  from setup_king[OF assms(2) this] show ?thesis .
qed

lemma home_castleInBounds: "unmovedAtHome w b \<Longrightarrow> castleInBounds b"
  unfolding castleInBounds_def using home_king[of w b] by fastforce

lemma home_colour:
  assumes "unmovedAtHome w b" "k \<in> {0..63}" "ptype (b k) = KING \<or> ptype (b k) = ROOK" "unmoved (b k)"
  shows "colour (b k) = (if (k < 32) = (w \<noteq> 0) then 0 else 1)"
proof -
  from assms have e: "b k AND 0x1f = setupBoard (\<lambda>k. NONE) w k" by (simp add: unmovedAtHome_def)
  from low5(1)[of "b k"] assms(3) have "ptype (setupBoard (\<lambda>k. NONE) w k) \<noteq> NONE"
    unfolding e by auto
  from setup_colour[OF assms(2) this] low5(2)[of "b k"] show ?thesis unfolding e by simp
qed

lemma castleLeft_own:
  assumes h: "unmovedAtHome w b" and i: "i \<in> {0..63}" and k: "ptype (b i) = KING" "unmoved (b i)"
  shows "castleLeft b i = castleLeftOwn b i"
proof (cases "castleLeft b i")
  case False
  then show ?thesis by (simp add: castleLeftOwn_def)
next
  case True
  then have c: "ptype (b (8 * (i div 8))) = ROOK" "unmoved (b (8 * (i div 8)))"
    by (simp_all add: castleLeft_def)
  from i have cr: "8 * (i div 8) \<in> {0..63}" by auto
  from i have s: "(8 * (i div 8) < 32) = (i < 32)" by presburger
  from home_colour[OF h cr _ c(2)] c(1) home_colour[OF h i _ k(2)] k(1) s
  have "colour (b (8 * (i div 8))) = colour (b i)" by simp
  with True show ?thesis by (simp add: castleLeftOwn_def)
qed

lemma castleRight_own:
  assumes h: "unmovedAtHome w b" and i: "i \<in> {0..63}" and k: "ptype (b i) = KING" "unmoved (b i)"
  shows "castleRight b i = castleRightOwn b i"
proof (cases "castleRight b i")
  case False
  then show ?thesis by (simp add: castleRightOwn_def)
next
  case True
  then have c: "ptype (b (8 * (i div 8) + 7)) = ROOK" "unmoved (b (8 * (i div 8) + 7))"
    by (simp_all add: castleRight_def)
  from i have cr: "8 * (i div 8) + 7 \<in> {0..63}" by auto
  from i have s: "(8 * (i div 8) + 7 < 32) = (i < 32)" by presburger
  from home_colour[OF h cr _ c(2)] c(1) home_colour[OF h i _ k(2)] k(1) s
  have "colour (b (8 * (i div 8) + 7)) = colour (b i)" by simp
  with True show ?thesis by (simp add: castleRightOwn_def)
qed

section \<open>Castling candidates\<close>

lemma castleLeft_file3:
  assumes "i mod 8 = 3"
  shows "castleLeft b i = (b (i - 3) AND 7 = ROOK \<and> drop_bit 4 (b (i - 3)) AND 1 \<noteq> 0 \<and>
           b (i - 2) AND 7 = NONE \<and> b (i - 1) AND 7 = NONE)"
proof -
  from assms have c: "8 * (i div 8) = i - 3" by presburger
  have s: "{8 * (i div 8) + 1 .. i - 1} = {i - 2, i - 1}" unfolding c by auto
  show ?thesis unfolding castleLeft_def s unfolding c by (auto simp: field_defs)
qed

lemma castleRight_file3:
  assumes "i mod 8 = 3"
  shows "castleRight b i = (b (i + 4) AND 7 = ROOK \<and> drop_bit 4 (b (i + 4)) AND 1 \<noteq> 0 \<and>
           b (i + 1) AND 7 = NONE \<and> b (i + 2) AND 7 = NONE \<and> b (i + 3) AND 7 = NONE)"
proof -
  from assms have c: "8 * (i div 8) + 7 = i + 4" "8 * (i div 8) + 6 = i + 3" by presburger+
  have s: "{i + 1 .. i + 3} = {i + 1, i + 2, i + 3}" by auto
  show ?thesis unfolding castleRight_def c s by (auto simp: field_defs)
qed

lemma castleLeft_file4:
  assumes "i mod 8 = 4"
  shows "castleLeft b i = (b (i - 4) AND 7 = ROOK \<and> drop_bit 4 (b (i - 4)) AND 1 \<noteq> 0 \<and>
           b (i - 1) AND 7 = NONE \<and> b (i - 2) AND 7 = NONE \<and> b (i - 3) AND 7 = NONE)"
proof -
  from assms have c: "8 * (i div 8) = i - 4" by presburger
  have s: "{8 * (i div 8) + 1 .. i - 1} = {i - 3, i - 2, i - 1}" unfolding c by auto
  show ?thesis unfolding castleLeft_def s unfolding c by (auto simp: field_defs)
qed

lemma castleRight_file4:
  assumes "i mod 8 = 4"
  shows "castleRight b i = (b (i + 3) AND 7 = ROOK \<and> drop_bit 4 (b (i + 3)) AND 1 \<noteq> 0 \<and>
           b (i + 2) AND 7 = NONE \<and> b (i + 1) AND 7 = NONE)"
proof -
  from assms have c: "8 * (i div 8) + 7 = i + 3" "8 * (i div 8) + 6 = i + 2" by presburger+
  have s: "{i + 1 .. i + 2} = {i + 1, i + 2}" by auto
  show ?thesis unfolding castleRight_def c s by (auto simp: field_defs)
qed

lemma castlingKingOnLeft_eq:
  assumes "3 \<le> i" "i \<le> 59"
  shows "castlingKingOnLeft b i = Some
     (let b2 = (if b (i - 3) AND 7 = ROOK \<and> drop_bit 4 (b (i - 3)) AND 1 \<noteq> 0 \<and>
                   b (i - 2) AND 7 = NONE \<and> b (i - 1) AND 7 = NONE
                then b(i - 2 := b (i - 2) OR 64) else b)
      in if b2 (i + 4) AND 7 = ROOK \<and> drop_bit 4 (b2 (i + 4)) AND 1 \<noteq> 0 \<and>
            b2 (i + 1) AND 7 = NONE \<and> b2 (i + 2) AND 7 = NONE \<and> b2 (i + 3) AND 7 = NONE
         then b2(i + 2 := b2 (i + 2) OR 64) else b2)"
  using assms
  by (simp add: castlingKingOnLeft_def ifThen_def andalso_def test_def dotSquareStmt_def
      dotSquare_eq to_u8_def Let_def)

lemma castlingKingOnRight_eq:
  assumes "4 \<le> i" "i \<le> 60"
  shows "castlingKingOnRight b i = Some
     (let b2 = (if b (i + 3) AND 7 = ROOK \<and> drop_bit 4 (b (i + 3)) AND 1 \<noteq> 0 \<and>
                   b (i + 2) AND 7 = NONE \<and> b (i + 1) AND 7 = NONE
                then b(i + 2 := b (i + 2) OR 64) else b)
      in if b2 (i - 4) AND 7 = ROOK \<and> drop_bit 4 (b2 (i - 4)) AND 1 \<noteq> 0 \<and>
            b2 (i - 1) AND 7 = NONE \<and> b2 (i - 2) AND 7 = NONE \<and> b2 (i - 3) AND 7 = NONE
         then b2(i - 2 := b2 (i - 2) OR 64) else b2)"
  using assms
  by (simp add: castlingKingOnRight_def ifThen_def andalso_def test_def dotSquareStmt_def
      dotSquare_eq to_u8_def Let_def)


lemma ifThen_dotSquare_at:
  "ifThen c (dotSquareStmt b i n) b = Some b' \<Longrightarrow> k \<noteq> n \<Longrightarrow> sameAt k b b'"
  by (auto simp: sameAt_def ifThen_def dotSquareStmt_def split: option.splits if_splits
      dest!: dotSquare_Some)

lemma bind_at:
  assumes "(f \<bind> g) = Some b'"
    and "\<And>b1. f = Some b1 \<Longrightarrow> sameAt k b b1"
    and "\<And>b1. g b1 = Some b' \<Longrightarrow> sameAt k b1 b'"
  shows "sameAt k b b'"
  using assms by (auto simp: sameAt_def split: bind_splits)

lemma kingNeighbours_sameAt:
  "kingNeighbours b i = Some b' \<Longrightarrow>
   k \<noteq> to_u8 (i - 8) \<Longrightarrow> k \<noteq> to_u8 (i - 1) \<Longrightarrow> k \<noteq> to_u8 (i + 1) \<Longrightarrow> k \<noteq> to_u8 (i + 8) \<Longrightarrow>
   k \<noteq> to_u8 (i - 9) \<Longrightarrow> k \<noteq> to_u8 (i - 7) \<Longrightarrow> k \<noteq> to_u8 (i + 7) \<Longrightarrow> k \<noteq> to_u8 (i + 9) \<Longrightarrow>
   sameAt k b b'"
  unfolding kingNeighbours_def
  by (erule bind_at, erule ifThen_dotSquare_at, assumption)+
     (erule ifThen_dotSquare_at, assumption)

lemma neighbour_not_target:
  assumes "0 \<le> i" "i < 64" "k = i - 2 \<or> k = i + 2" "- 9 \<le> d" "d \<le> 9" "d \<noteq> 2" "d \<noteq> - 2"
  shows "k \<noteq> to_u8 (i + d)"
proof -
  have "to_u8 (i + d) = (if i + d < 0 then i + d + 256 else i + d)"
    unfolding to_u8_def using assms by (intro wrap256) auto
  with assms show ?thesis by (auto split: if_splits)
qed

lemma kingNeighbours_at:
  assumes "kingNeighbours b i = Some b'" "0 \<le> i" "i < 64" "k = i - 2 \<or> k = i + 2"
  shows "b' k = b k"
proof -
  note n = neighbour_not_target[OF assms(2-4)]
  have "sameAt k b b'"
    using n[of "- 8"] n[of "- 1"] n[of 1] n[of 8] n[of "- 9"] n[of "- 7"] n[of 7] n[of 9]
    by (intro kingNeighbours_sameAt[OF assms(1)]) simp_all
  then show ?thesis by (simp add: sameAt_def)
qed

lemma castling_marks_aux:
  assumes i: "0 \<le> i" "i < 64" and f: "i mod 8 = 3 \<or> i mod 8 = 4"
    and d: "dotsAdded b b1" and u: "unmoved (b i)"
    and l: "b1 (i - 2) = b (i - 2)" and r: "b1 (i + 2) = b (i + 2)"
  shows "\<exists>b'. castling b1 i = Some b' \<and>
           dotted (b' (i - 2)) = (dotted (b (i - 2)) \<or> castleLeft b i) \<and>
           dotted (b' (i + 2)) = (dotted (b (i + 2)) \<or> castleRight b i)"
proof -
  note fl = dotsAdded_fields(6,8)[OF d]
  from u have t: "test b1 i (\<lambda>x. drop_bit 4 x AND 1 \<noteq> 0) = Some True"
    using i fl by (simp add: test_def unmoved_def)
  from f show ?thesis
  proof
    assume f3: "i mod 8 = 3"
    with i have rg: "3 \<le> i" "i \<le> 59" by presburger+
    show ?thesis
      using f3 l r
      by (simp add: castling_def t and7 castlingKingOnLeft_eq[OF rg] Let_def
          castleLeft_file3[OF f3] castleRight_file3[OF f3] fl dot_keeps dotted_def cell_simps)
         blast
  next
    assume f4: "i mod 8 = 4"
    with i have rg: "4 \<le> i" "i \<le> 60" by presburger+
    show ?thesis
      using f4 l r
      by (simp add: castling_def t and7 castlingKingOnRight_eq[OF rg] Let_def
          castleLeft_file4[OF f4] castleRight_file4[OF f4] fl dot_keeps dotted_def cell_simps)
         blast
  qed
qed

lemma castling_marks_lemma:
  assumes "i \<in> {0..63}" "ptype (b i) = KING" "unmoved (b i)" "i mod 8 = 3 \<or> i mod 8 = 4"
  shows "\<exists>b'. calculateMoves b i = Some b' \<and>
           dotted (b' (i - 2)) = (dotted (b (i - 2)) \<or> castleLeft b i) \<and>
           dotted (b' (i + 2)) = (dotted (b (i + 2)) \<or> castleRight b i)"
proof -
  from assms(1) have i: "0 \<le> i" "i < 64" by auto
  from kingNeighbours_total[OF i] obtain b1 where b1: "kingNeighbours b i = Some b1" by blast
  note d = kingNeighbours_frame[OF b1]
  have l: "b1 (i - 2) = b (i - 2)" and r: "b1 (i + 2) = b (i + 2)"
    using kingNeighbours_at[OF b1 i] by simp_all
  from castling_marks_aux[OF i assms(4) d assms(3) l r] b1 assms(2) i
  show ?thesis by (simp add: calculateMoves_def kingMoves_def ptype_def)
qed

lemma castling_home:
  assumes h: "unmovedAtHome w b" and i: "i \<in> {0..63}" and k: "ptype (b i) = KING" "unmoved (b i)"
  shows "\<exists>b'. calculateMoves b i = Some b' \<and>
           dotted (b' (i - 2)) = (dotted (b (i - 2)) \<or> castleLeftOwn b i) \<and>
           dotted (b' (i + 2)) = (dotted (b (i + 2)) \<or> castleRightOwn b i)"
proof -
  from home_king[OF h i k] have f: "i mod 8 = 3 \<or> i mod 8 = 4" by auto
  from castling_marks_lemma[of i b, OF i k f] show ?thesis
    unfolding castleLeft_own[OF h i k] castleRight_own[OF h i k] .
qed

text \<open>
  C3.  On every board that play can reach from the initial position, with any dots and
  selections set or cleared, and more generally on every board whose unmoved flags tell the
  truth: for every square \<open>i\<close> that holds a king with the unmoved flag, \<open>calculateMoves\<close>
  sets the dot of the square two files to the left (to the right) exactly when the corner
  square of the king's rank on that side holds a rook of the king's colour with the unmoved
  flag and every square strictly between king and corner is empty; a dot that was already
  there stays.
\<close>

theorem castling_marks:
  "(reachable g \<and> sameUpToMarks (squares g) b \<and> i \<in> {0..63} \<and>
    ptype (b i) = KING \<and> unmoved (b i) \<longrightarrow>
      (\<exists>b'. calculateMoves b i = Some b' \<and>
         dotted (b' (i - 2)) = (dotted (b (i - 2)) \<or> castleLeftOwn b i) \<and>
         dotted (b' (i + 2)) = (dotted (b (i + 2)) \<or> castleRightOwn b i))) \<and>
   (unmovedAtHome w c \<and> j \<in> {0..63} \<and> ptype (c j) = KING \<and> unmoved (c j) \<longrightarrow>
      (\<exists>c'. calculateMoves c j = Some c' \<and>
         dotted (c' (j - 2)) = (dotted (c (j - 2)) \<or> castleLeftOwn c j) \<and>
         dotted (c' (j + 2)) = (dotted (c (j + 2)) \<or> castleRightOwn c j)))"
proof (intro conjI impI)
  assume a: "reachable g \<and> sameUpToMarks (squares g) b \<and> i \<in> {0..63} \<and>
    ptype (b i) = KING \<and> unmoved (b i)"
  then obtain v where "unmovedAtHome v (squares g)" using reachable_home[of g] by blast
  with a have h: "unmovedAtHome v b" using sameUpToMarks_home[of "squares g" b v] by blast
  from a castling_home[OF h, of i]
  show "\<exists>b'. calculateMoves b i = Some b' \<and>
         dotted (b' (i - 2)) = (dotted (b (i - 2)) \<or> castleLeftOwn b i) \<and>
         dotted (b' (i + 2)) = (dotted (b (i + 2)) \<or> castleRightOwn b i)"
    by blast
next
  assume a: "unmovedAtHome w c \<and> j \<in> {0..63} \<and> ptype (c j) = KING \<and> unmoved (c j)"
  with castling_home[of w c j]
  show "\<exists>c'. calculateMoves c j = Some c' \<and>
         dotted (c' (j - 2)) = (dotted (c (j - 2)) \<or> castleLeftOwn c j) \<and>
         dotted (c' (j + 2)) = (dotted (c (j + 2)) \<or> castleRightOwn c j)"
    by blast
qed

text \<open>
  In the initial position (white on top) the king of square 3 gets no castling dot: knight,
  bishop and queen stand between it and its rooks.  On \<open>castleReadyBoard\<close> the squares
  to its left are empty and the dot of square 1 is set; the queen on square 4 blocks the
  other side.
\<close>

theorem castling_marks_witness:
  "reachable \<lparr>squares = setupBoard emptyBoard 1, is_whites_turn = 1\<rparr> \<and>
   sameUpToMarks (squares \<lparr>squares = setupBoard emptyBoard 1, is_whites_turn = 1\<rparr>)
     (setupBoard emptyBoard 1) \<and>
   (3::int) \<in> {0..63} \<and> ptype (setupBoard emptyBoard 1 3) = KING \<and>
   unmoved (setupBoard emptyBoard 1 3) \<and>
   (\<exists>b'. calculateMoves (setupBoard emptyBoard 1) 3 = Some b' \<and>
      \<not> dotted (b' 1) \<and> \<not> dotted (b' 5)) \<and>
   unmovedAtHome 1 castleReadyBoard \<and> ptype (castleReadyBoard 3) = KING \<and>
   unmoved (castleReadyBoard 3) \<and> castleLeftOwn castleReadyBoard 3 \<and>
   \<not> castleRightOwn castleReadyBoard 3 \<and> \<not> dotted (castleReadyBoard 1) \<and>
   (\<exists>c'. calculateMoves castleReadyBoard 3 = Some c' \<and> dotted (c' 1) \<and> \<not> dotted (c' 5))"
proof -
  let ?s = "setupBoard emptyBoard 1"
  have r: "reachable \<lparr>squares = ?s, is_whites_turn = 1\<rparr>" by (rule reachable.start)
  have m: "sameUpToMarks (squares \<lparr>squares = ?s, is_whites_turn = 1\<rparr>) ?s" by simp
  have i: "(3::int) \<in> {0..63}" by simp
  have k: "ptype (?s 3) = KING" "unmoved (?s 3)"
    by (simp_all add: setupBoard_def field_defs)
  have n: "\<not> castleLeftOwn ?s 3" "\<not> castleRightOwn ?s 3" "\<not> dotted (?s 1)" "\<not> dotted (?s 5)"
    by (simp_all add: castleLeftOwn_def castleRightOwn_def castleLeft_file3[of 3]
        castleRight_file3[of 3] setupBoard_def field_defs)
  have h: "unmovedAtHome 1 castleReadyBoard"
    by (auto simp: unmovedAtHome_def setupBoard_def field_defs example_defs)
  have k': "ptype (castleReadyBoard 3) = KING" "unmoved (castleReadyBoard 3)"
    by (simp_all add: field_defs example_defs)
  have c: "castleLeftOwn castleReadyBoard 3" "\<not> castleRightOwn castleReadyBoard 3"
    "\<not> dotted (castleReadyBoard 1)" "\<not> dotted (castleReadyBoard 5)"
    by (simp_all add: castleLeftOwn_def castleRightOwn_def castleLeft_def castleRight_def
        field_defs example_defs)
  note t = castling_marks[of "\<lparr>squares = ?s, is_whites_turn = 1\<rparr>" ?s 3 1 castleReadyBoard 3]
  from t r m i k n have a: "\<exists>b'. calculateMoves ?s 3 = Some b' \<and> \<not> dotted (b' 1) \<and> \<not> dotted (b' 5)"
    by simp
  from t h i k' c have b: "\<exists>c'. calculateMoves castleReadyBoard 3 = Some c' \<and>
      dotted (c' 1) \<and> \<not> dotted (c' 5)"
    by simp
  from r m i k a h k' c b show ?thesis by simp
qed

section \<open>verifyMove leaves its caller's board alone\<close>

lemma verifyMove_home:
  assumes "\<exists>k\<in>{0..63}. selected (caller_board st k)" "unmovedAtHome w (caller_board st)"
    "i \<in> {0..63}"
  shows "\<exists>r st'. verifyMove st i side = Some (r, st') \<and> (r = 0 \<or> r = 1) \<and>
           caller_board st' = caller_board st"
proof -
  let ?b2 = "fold (\<lambda>j b2. b2(j := caller_board st j)) [0..63] (board2 st)"
  have s: "\<exists>k\<in>{0..63}. selected (?b2 k)" using assms(1) by (auto simp: copy_apply)
  have c: "castleInBounds ?b2" using home_castleInBounds[OF assms(2)]
    by (simp add: castleInBounds_def copy_apply)
  from movePiece_castleInBounds[OF s assms(3) c] obtain b3 where
    b3: "movePiece ?b2 i = Some b3" "castleInBounds b3" by blast
  from scanOpponents_total[OF b3(2), of "[0..63]" side] obtain r b4 where
    r: "scanOpponents b3 side [0..63] = Some (r, b4)" "r = 0 \<or> r = 1" by auto
  show ?thesis
    using b3(1) r by (simp add: verifyMove_def Let_def)
qed

text \<open>
  C5.  \<open>verifyMove\<close> is called on the board of the game with a piece selected (line 572,
  after \<open>board[i] |= 128\<close>): a board that play can reach, up to dots and selections, on
  which some square is selected.  On every such board, for every destination \<open>i\<close> in
  \<open>0..63\<close>, every side flag and every content of the stack, \<open>verifyMove\<close> returns 0 or 1
  without any access outside the 64 bytes of an array, and the caller's board is byte for
  byte what it was: only the local copy \<open>board2\<close> is written.
\<close>

theorem verifyMove_frame:
  assumes "reachable g" "sameUpToMarks (squares g) (caller_board st)"
    "\<exists>k\<in>{0..63}. selected (caller_board st k)" "i \<in> {0..63}"
  shows "\<exists>r st'. verifyMove st i side = Some (r, st') \<and> (r = 0 \<or> r = 1) \<and>
           caller_board st' = caller_board st"
proof -
  from reachable_home[OF assms(1)] obtain w where "unmovedAtHome w (squares g)" by blast
  from sameUpToMarks_home[OF assms(2) this] have "unmovedAtHome w (caller_board st)" .
  from verifyMove_home[OF assms(3) this assms(4)] show ?thesis .
qed

text \<open>
  The initial position with the knight of square 1 selected and the destination 16; the
  side to scan is black, whose sixteen pieces stand on the squares 48 to 63.
\<close>

theorem verifyMove_frame_witness:
  "reachable \<lparr>squares = setupBoard emptyBoard 1, is_whites_turn = 1\<rparr> \<and>
   sameUpToMarks (squares \<lparr>squares = setupBoard emptyBoard 1, is_whites_turn = 1\<rparr>)
     (caller_board \<lparr>caller_board = knightSelectedBoard, board2 = emptyBoard\<rparr>) \<and>
   (\<exists>k\<in>{0..63}. selected (caller_board \<lparr>caller_board = knightSelectedBoard, board2 = emptyBoard\<rparr> k)) \<and>
   (16::int) \<in> {0..63} \<and>
   ptype (knightSelectedBoard 52) = PAWN \<and> colour (knightSelectedBoard 52) = 1 \<and>
   (\<exists>r st'. verifyMove \<lparr>caller_board = knightSelectedBoard, board2 = emptyBoard\<rparr> 16 1 = Some (r, st') \<and>
      (r = 0 \<or> r = 1) \<and> caller_board st' = knightSelectedBoard)"
proof -
  let ?st = "\<lparr>caller_board = knightSelectedBoard, board2 = emptyBoard\<rparr>"
  have r: "reachable \<lparr>squares = setupBoard emptyBoard 1, is_whites_turn = 1\<rparr>"
    by (rule reachable.start)
  have m: "sameUpToMarks (squares \<lparr>squares = setupBoard emptyBoard 1, is_whites_turn = 1\<rparr>)
      (caller_board ?st)"
    by (simp add: sameUpToMarks_def knightSelectedBoard_def setupBoard_def)
  have s: "\<exists>k\<in>{0..63}. selected (caller_board ?st k)"
    by (rule bexI[of _ 1]) (simp_all add: selected_def knightSelectedBoard_def)
  have i: "(16::int) \<in> {0..63}" by simp
  have p: "ptype (knightSelectedBoard 52) = PAWN" "colour (knightSelectedBoard 52) = 1"
    by (simp_all add: knightSelectedBoard_def setupBoard_def field_defs)
  from verifyMove_frame[OF r m s i, of 1] r m s p show ?thesis by simp
qed

section \<open>Sliding pieces\<close>

lemma step_coords: "step d = 8 * rankStep d + fileStep d"
  by (cases d) simp_all

lemma raySquare_step: "raySquare i d n = i + n * step d"
proof -
  have "i = 8 * (i div 8) + i mod 8" by simp
  then show ?thesis
    unfolding raySquare_def step_coords by (simp add: algebra_simps)
qed

lemma divmod8: "0 \<le> f \<Longrightarrow> f \<le> 7 \<Longrightarrow> (8 * r + f) mod 8 = f \<and> (8 * r + f) div 8 = (r::int)"
  by auto

lemma raySquare_coords:
  assumes "onBoard i d n"
  shows "raySquare i d n mod 8 = i mod 8 + n * fileStep d"
    "raySquare i d n div 8 = i div 8 + n * rankStep d"
    "0 \<le> raySquare i d n" "raySquare i d n < 64"
  using assms divmod8[of "i mod 8 + n * fileStep d" "i div 8 + n * rankStep d"]
  by (auto simp: onBoard_def raySquare_def)

lemma onBoard_0: "0 \<le> i \<Longrightarrow> i < 64 \<Longrightarrow> onBoard i d 0"
  by (auto simp: onBoard_def)

lemma raySquare_0 [simp]: "raySquare i d 0 = i"
  by (simp add: raySquare_def)

lemma onBoard_mono: "onBoard i d m \<Longrightarrow> 0 \<le> n \<Longrightarrow> n \<le> m \<Longrightarrow> 0 \<le> i \<Longrightarrow> i < 64 \<Longrightarrow> onBoard i d n"
  by (cases d) (auto simp: onBoard_def)

lemma onBoard_le7: "onBoard i d n \<Longrightarrow> 0 \<le> n \<Longrightarrow> 0 \<le> i \<Longrightarrow> i < 64 \<Longrightarrow> n \<le> 7"
  by (cases d) (auto simp: onBoard_def)

lemma raySquare_inj: "raySquare i d n = raySquare i d m \<Longrightarrow> n = m"
  by (cases d) (simp_all add: raySquare_step)

lemma nextOK_all:
  "list_all (\<lambda>d. list_all (nextOK d) [0..63])
     [UpLeft, UpRight, DownLeft, DownRight, Upward, Leftward, Rightward, Downward]"
  by code_simp

lemma next_iff:
  assumes "0 \<le> s" "s < 64"
  shows "cont d (to_u8 (s + step d)) =
         (0 \<le> s mod 8 + fileStep d \<and> s mod 8 + fileStep d \<le> 7 \<and>
          0 \<le> s div 8 + rankStep d \<and> s div 8 + rankStep d \<le> 7)"
proof -
  have "d \<in> set [UpLeft, UpRight, DownLeft, DownRight, Upward, Leftward, Rightward, Downward]"
    by (cases d) simp_all
  moreover have "s \<in> set [0..63]" using assms by simp
  ultimately have "nextOK d s" using nextOK_all unfolding list_all_iff by blast
  then show ?thesis by (simp add: nextOK_def)
qed

lemma next_onBoard:
  assumes "0 \<le> i" "i < 64" "0 \<le> n" "onBoard i d n"
  shows "cont d (to_u8 (raySquare i d n + step d)) = onBoard i d (n + 1)"
    "onBoard i d (n + 1) \<Longrightarrow> to_u8 (raySquare i d n + step d) = raySquare i d (n + 1)"
proof -
  note c = raySquare_coords[OF assms(4)]
  show e: "cont d (to_u8 (raySquare i d n + step d)) = onBoard i d (n + 1)"
    unfolding next_iff[OF c(3,4)] c(1,2) by (simp add: onBoard_def algebra_simps)
  assume o: "onBoard i d (n + 1)"
  with e have "cont d (to_u8 (raySquare i d n + step d))" by simp
  from next_val[OF c(3,4) this] show "to_u8 (raySquare i d n + step d) = raySquare i d (n + 1)"
    by (simp add: raySquare_step algebra_simps)
qed

lemma ray_disjoint:
  assumes "onBoard i d n" "onBoard i e m" "1 \<le> n" "1 \<le> m" "raySquare i d n = raySquare i e m"
  shows "d = e"
proof -
  from raySquare_coords(1,2)[OF assms(1)] raySquare_coords(1,2)[OF assms(2)] assms(5)
  have "n * fileStep d = m * fileStep e" "n * rankStep d = m * rankStep e" by simp_all
  with assms(3,4) show ?thesis by (cases d; cases e; simp)
qed

lemma ball_split:
  assumes "n < m"
  shows "(\<forall>l\<in>{n..m - 1}. P l) = (P n \<and> (\<forall>l\<in>{n + 1..m - 1}. P (l::int)))"
proof -
  have "{n..m - 1} = insert n {n + 1..m - 1}" using assms by auto
  then show ?thesis by simp
qed

lemma markable_dots: "dotsAdded c c1 \<Longrightarrow> markable c1 i k = markable c i k"
  by (simp add: markable_def dotsAdded_fields)

lemma hits_dots: "dotsAdded c c1 \<Longrightarrow> hits d i n c1 k = hits d i n c k"
  by (simp add: hits_def markable_dots dotsAdded_fields)

lemma hits_none:
  assumes "0 \<le> i" "i < 64" "0 \<le> n" "\<not> onBoard i d n"
  shows "\<not> hits d i n c k"
  using assms onBoard_mono[of i d _ n] by (auto simp: hits_def)

lemma hits_block:
  assumes "onBoard i d n" "n \<le> 7" "ptype (c (raySquare i d n)) \<noteq> NONE"
  shows "hits d i n c k = (k = raySquare i d n \<and> markable c i k)"
proof
  assume "hits d i n c k"
  then obtain m where m: "n \<le> m" "m \<le> 7" "onBoard i d m" "k = raySquare i d m"
    "\<forall>l\<in>{n..m - 1}. ptype (c (raySquare i d l)) = NONE" "markable c i k"
    by (auto simp: hits_def)
  have "m = n"
  proof (rule ccontr)
    assume "m \<noteq> n"
    with m(1) have "n \<in> {n..m - 1}" by simp
    with m(5) assms(3) show False by blast
  qed
  with m show "k = raySquare i d n \<and> markable c i k" by simp
next
  assume "k = raySquare i d n \<and> markable c i k"
  with assms(1,2) show "hits d i n c k" by (auto simp: hits_def)
qed

lemma hits_step:
  assumes "onBoard i d n" "n \<le> 7" "ptype (c (raySquare i d n)) = NONE"
  shows "hits d i n c k = (k = raySquare i d n \<or> hits d i (n + 1) c k)"
proof
  assume "hits d i n c k"
  then obtain m where m: "n \<le> m" "m \<le> 7" "onBoard i d m" "k = raySquare i d m"
    "\<forall>l\<in>{n..m - 1}. ptype (c (raySquare i d l)) = NONE" "markable c i k"
    by (auto simp: hits_def)
  show "k = raySquare i d n \<or> hits d i (n + 1) c k"
  proof (cases "m = n")
    case True
    with m(4) show ?thesis by simp
  next
    case False
    with m(1) have lt: "n < m" by simp
    from m(5) have "\<forall>l\<in>{n + 1..m - 1}. ptype (c (raySquare i d l)) = NONE"
      unfolding ball_split[OF lt] by simp
    with m lt have "hits d i (n + 1) c k" unfolding hits_def by (intro bexI[of _ m]) auto
    then show ?thesis ..
  qed
next
  assume "k = raySquare i d n \<or> hits d i (n + 1) c k"
  then show "hits d i n c k"
  proof
    assume k: "k = raySquare i d n"
    with assms have "markable c i k" by (simp add: markable_def)
    with assms k show ?thesis unfolding hits_def by (intro bexI[of _ n]) auto
  next
    assume "hits d i (n + 1) c k"
    then obtain m where m: "n + 1 \<le> m" "m \<le> 7" "onBoard i d m" "k = raySquare i d m"
      "\<forall>l\<in>{n + 1..m - 1}. ptype (c (raySquare i d l)) = NONE" "markable c i k"
      by (auto simp: hits_def)
    then have lt: "n < m" by simp
    from m(5) assms(3) have "\<forall>l\<in>{n..m - 1}. ptype (c (raySquare i d l)) = NONE"
      unfolding ball_split[OF lt] by simp
    with m lt show ?thesis unfolding hits_def by (intro bexI[of _ m]) auto
  qed
qed

lemma hits_later:
  "\<not> hits d i (n + 1) c (raySquare i d n)"
  by (auto simp: hits_def dest: raySquare_inj)

lemma slide_from:
  assumes i: "0 \<le> i" "i < 64"
  shows "1 \<le> n \<Longrightarrow> onBoard i d (n - 1) \<Longrightarrow>
         \<exists>c'. slide d c i (to_u8 (raySquare i d (n - 1) + step d)) = Some c' \<and> rayEffect d i n c c'"
proof (induction n arbitrary: c rule: measure_induct_rule[where f = "\<lambda>n. nat (8 - n)"])
  case (less n)
  let ?j = "to_u8 (raySquare i d (n - 1) + step d)"
  from less.prems have n0: "0 \<le> n - 1" by simp
  from next_onBoard(1)[OF i n0 less.prems(2)] have ct: "cont d ?j = onBoard i d n" by simp
  show ?case
  proof (cases "onBoard i d n")
    case False
    with ct have "slide d c i ?j = Some c" by (subst slide.simps) simp
    moreover from hits_none[OF i _ False] less.prems(1) have "rayEffect d i n c c"
      by (simp add: rayEffect_def)
    ultimately show ?thesis by simp
  next
    case True
    from next_onBoard(2)[OF i n0 less.prems(2)] True have j: "?j = raySquare i d n" by simp
    note rc = raySquare_coords(3,4)[OF True]
    from onBoard_le7[OF True _ i] less.prems(1) have n7: "n \<le> 7" by simp
    let ?s = "raySquare i d n"
    note ds = dotSquare_eq[OF rc i, of c]
    show ?thesis
    proof (cases "c ?s AND 7 = NONE")
      case empty: True
      let ?c1 = "c(?s := c ?s OR 64)"
      from empty ds have d1: "dotSquare c i ?s = Some (?c1, 1)" by simp
      have da: "dotsAdded c ?c1" using rc by (rule dotsAdded_upd)
      have "nat (8 - (n + 1)) < nat (8 - n)" using n7 by simp
      moreover have "1 \<le> n + 1" "onBoard i d (n + 1 - 1)" using less.prems(1) True by simp_all
      ultimately have "\<exists>c'. slide d ?c1 i (to_u8 (raySquare i d (n + 1 - 1) + step d)) = Some c' \<and>
          rayEffect d i (n + 1) ?c1 c'" by (rule less.IH)
      moreover have "n + 1 - 1 = n" by simp
      ultimately obtain c' where c': "slide d ?c1 i (to_u8 (?s + step d)) = Some c'"
        "rayEffect d i (n + 1) ?c1 c'" by (simp only:) blast
      from empty have pe: "ptype (c ?s) = NONE" by (simp add: ptype_def)
      have "rayEffect d i n c c'"
        unfolding rayEffect_def
      proof
        fix k
        from c'(2) have "c' k = (if hits d i (n + 1) c k then ?c1 k OR 64 else ?c1 k)"
          by (simp add: rayEffect_def hits_dots[OF da])
        moreover have "hits d i n c k = (k = ?s \<or> hits d i (n + 1) c k)"
          using True n7 pe by (rule hits_step)
        ultimately show "c' k = (if hits d i n c k then c k OR 64 else c k)"
          using hits_later[of d i n c] by (auto simp: or.assoc)
      qed
      moreover have "slide d c i ?j = Some c'"
        unfolding j using True ct j d1 c'(1) by (subst slide.simps) simp
      ultimately show ?thesis by blast
    next
      case occupied: False
      then have po: "ptype (c ?s) \<noteq> NONE" by (simp add: ptype_def)
      show ?thesis
      proof (cases "drop_bit 3 (c i) AND 1 \<noteq> drop_bit 3 (c ?s) AND 1")
        case True
        let ?c1 = "c(?s := c ?s OR 64)"
        from True occupied ds have d1: "dotSquare c i ?s = Some (?c1, 2)" by simp
        from True have mk: "markable c i ?s" by (auto simp: markable_def colour_def)
        have hb: "hits d i n c k = (k = ?s \<and> markable c i k)" for k
          using \<open>onBoard i d n\<close> n7 po by (rule hits_block)
        have "rayEffect d i n c ?c1"
          unfolding rayEffect_def hb using mk by auto
        moreover have "slide d c i ?j = Some ?c1"
          unfolding j using \<open>onBoard i d n\<close> ct j d1 by (subst slide.simps) simp
        ultimately show ?thesis by blast
      next
        case False
        from False occupied ds have d1: "dotSquare c i ?s = Some (c, 0)" by simp
        from False po have mk: "\<not> markable c i ?s" by (auto simp: markable_def colour_def)
        have hb: "hits d i n c k = (k = ?s \<and> markable c i k)" for k
          using \<open>onBoard i d n\<close> n7 po by (rule hits_block)
        have "rayEffect d i n c c"
          unfolding rayEffect_def hb using mk by auto
        moreover have "slide d c i ?j = Some c"
          unfolding j using \<open>onBoard i d n\<close> ct j d1 by (subst slide.simps) simp
        ultimately show ?thesis by blast
      qed
    qed
  qed
qed

lemma hits_onRay: "hits d i n c k \<Longrightarrow> \<exists>m\<in>{n..7}. onBoard i d m \<and> k = raySquare i d m"
  by (auto simp: hits_def)

lemma hits1_iff:
  assumes "onBoard i d n" "n \<in> {1..7}"
  shows "hits d i 1 c (raySquare i d n) = (clearTo c i d n \<and> markable c i (raySquare i d n))"
proof
  assume "hits d i 1 c (raySquare i d n)"
  then obtain m where m: "raySquare i d n = raySquare i d m"
    "\<forall>l\<in>{1..m - 1}. ptype (c (raySquare i d l)) = NONE" "markable c i (raySquare i d n)"
    by (auto simp: hits_def)
  from raySquare_inj[OF m(1)] m(2,3)
  show "clearTo c i d n \<and> markable c i (raySquare i d n)" by (simp add: clearTo_def)
next
  assume "clearTo c i d n \<and> markable c i (raySquare i d n)"
  with assms show "hits d i 1 c (raySquare i d n)"
    unfolding hits_def clearTo_def by (intro bexI[of _ n]) auto
qed

lemma slideAll_spec:
  assumes i: "0 \<le> i" "i < 64"
  shows "\<exists>c'. slideAll ds c i = Some c' \<and>
           (\<forall>k. c' k = (if \<exists>d\<in>set ds. hits d i 1 c k then c k OR 64 else c k))"
proof (induction ds arbitrary: c)
  case Nil
  show ?case by simp
next
  case (Cons d ds)
  have "onBoard i d (1 - 1)" using onBoard_0[OF i] by simp
  with slide_from[OF i, of 1 d c] obtain c1 where
    c1: "slide d c i (to_u8 (i + step d)) = Some c1" "rayEffect d i 1 c c1" by auto
  note da = slide_frame[OF c1(1)]
  from Cons.IH[of c1] obtain c' where
    c': "slideAll ds c1 i = Some c'"
    "\<forall>k. c' k = (if \<exists>e\<in>set ds. hits e i 1 c1 k then c1 k OR 64 else c1 k)" by blast
  have "c' k = (if \<exists>e\<in>set (d # ds). hits e i 1 c k then c k OR 64 else c k)" for k
    using c'(2)[rule_format, of k] c1(2)[unfolded rayEffect_def, rule_format, of k]
    by (auto simp: hits_dots[OF da] or.assoc)
  with c1(1) c'(1) show ?case by simp
qed

lemma dotDiagonals_slideAll:
  "dotDiagonals b i = slideAll [UpLeft, UpRight, DownLeft, DownRight] b i"
  by (simp add: dotDiagonals_def)

lemma dotStraights_slideAll:
  "dotStraights b i = slideAll [Upward, Leftward, Rightward, Downward] b i"
  by (simp add: dotStraights_def)

lemma queen_slideAll:
  "slideAll [UpLeft, UpRight, DownLeft, DownRight] b i \<bind>
     (\<lambda>b. slideAll [Upward, Leftward, Rightward, Downward] b i) =
   slideAll [UpLeft, UpRight, DownLeft, DownRight, Upward, Leftward, Rightward, Downward] b i"
  by simp

lemma calculateMoves_slideAll:
  assumes "0 \<le> i" "i < 64" "ptype (b i) = BISHOP \<or> ptype (b i) = ROOK \<or> ptype (b i) = QUEEN"
  shows "calculateMoves b i = slideAll (rays (ptype (b i))) b i"
  using assms
  by (auto simp: calculateMoves_def rays_def ptype_def dotDiagonals_slideAll
      dotStraights_slideAll queen_slideAll simp del: slideAll.simps)

lemma slides_lemma:
  assumes "i \<in> {0..63}" "ptype (b i) = BISHOP \<or> ptype (b i) = ROOK \<or> ptype (b i) = QUEEN"
  shows "\<exists>b'. calculateMoves b i = Some b' \<and>
     (\<forall>d\<in>set (rays (ptype (b i))). \<forall>n\<in>{1..7}. onBoard i d n \<longrightarrow>
        b' (raySquare i d n) =
          (if clearTo b i d n \<and> markable b i (raySquare i d n)
           then b (raySquare i d n) OR 64 else b (raySquare i d n))) \<and>
     (\<forall>k. (\<forall>d\<in>set (rays (ptype (b i))). \<forall>n\<in>{1..7}. onBoard i d n \<longrightarrow> k \<noteq> raySquare i d n) \<longrightarrow>
        b' k = b k)"
proof -
  from assms(1) have i: "0 \<le> i" "i < 64" by auto
  let ?ds = "rays (ptype (b i))"
  from slideAll_spec[OF i, of ?ds b] obtain b' where
    b': "slideAll ?ds b i = Some b'"
    "\<forall>k. b' k = (if \<exists>d\<in>set ?ds. hits d i 1 b k then b k OR 64 else b k)" by blast
  have on: "b' (raySquare i d n) =
          (if clearTo b i d n \<and> markable b i (raySquare i d n)
           then b (raySquare i d n) OR 64 else b (raySquare i d n))"
    if d: "d \<in> set ?ds" and n: "n \<in> {1..7}" and o: "onBoard i d n" for d n
  proof -
    have "(\<exists>e\<in>set ?ds. hits e i 1 b (raySquare i d n)) = hits d i 1 b (raySquare i d n)"
    proof
      assume "\<exists>e\<in>set ?ds. hits e i 1 b (raySquare i d n)"
      then obtain e where e: "hits e i 1 b (raySquare i d n)" by blast
      from hits_onRay[OF e] obtain m where m: "1 \<le> m" "onBoard i e m"
        "raySquare i d n = raySquare i e m" by auto
      from ray_disjoint[OF o m(2) _ m(1) m(3)] n e show "hits d i 1 b (raySquare i d n)" by simp
    next
      assume "hits d i 1 b (raySquare i d n)"
      with d show "\<exists>e\<in>set ?ds. hits e i 1 b (raySquare i d n)" by blast
    qed
    with b'(2)[rule_format, of "raySquare i d n"] hits1_iff[OF o n, of b] show ?thesis by simp
  qed
  have off: "b' k = b k"
    if "\<forall>d\<in>set ?ds. \<forall>n\<in>{1..7}. onBoard i d n \<longrightarrow> k \<noteq> raySquare i d n" for k
  proof -
    have "\<not> (\<exists>d\<in>set ?ds. hits d i 1 b k)"
    proof
      assume "\<exists>d\<in>set ?ds. hits d i 1 b k"
      then obtain d where d: "d \<in> set ?ds" "hits d i 1 b k" by blast
      from hits_onRay[OF d(2)] d(1) that show False by blast
    qed
    with b'(2)[rule_format, of k] show ?thesis by simp
  qed
  from b'(1) on off show ?thesis
    unfolding calculateMoves_slideAll[of i b, OF i assms(2)] by blast
qed


text \<open>
  C8.  For every board and every square \<open>i\<close> that holds a bishop, a rook or a queen,
  \<open>calculateMoves\<close> returns, and on each ray of the piece (diagonals for the bishop,
  orthogonals for the rook, both for the queen) the \<open>n\<close>-th square gets its dot set exactly
  when every square of the ray before it is empty and it is itself empty or holds the other
  colour; otherwise its byte is unchanged.  So a square beyond the first occupied square of
  a ray is never marked, an empty square is marked and the slide goes on, a square of the
  other colour is marked and ends the slide, a square of the own colour ends it unmarked.
  No square off the rays is changed.
\<close>

theorem slides_stop_at_first_piece:
  assumes "i \<in> {0..63}" "ptype (b i) = BISHOP \<or> ptype (b i) = ROOK \<or> ptype (b i) = QUEEN"
  shows "\<exists>b'. calculateMoves b i = Some b' \<and>
     (\<forall>d\<in>set (rays (ptype (b i))). \<forall>n\<in>{1..7}. onBoard i d n \<longrightarrow>
        b' (raySquare i d n) =
          (if clearTo b i d n \<and> markable b i (raySquare i d n)
           then b (raySquare i d n) OR 64 else b (raySquare i d n))) \<and>
     (\<forall>k. (\<forall>d\<in>set (rays (ptype (b i))). \<forall>n\<in>{1..7}. onBoard i d n \<longrightarrow> k \<noteq> raySquare i d n) \<longrightarrow>
        b' k = b k)"
  using assms by (rule slides_lemma)

theorem slides_stop_at_first_piece_witness:
  "(27::int) \<in> {0..63} \<and>
   (ptype (slideBoard 27) = BISHOP \<or> ptype (slideBoard 27) = ROOK \<or> ptype (slideBoard 27) = QUEEN) \<and>
   (\<exists>b'. calculateMoves slideBoard 27 = Some b' \<and>
      b' 19 = 0x40 \<and> b' 11 = 0x49 \<and> b' 3 = NONE \<and> b' 28 = 0x40 \<and> b' 29 = 0x02 \<and> b' 30 = NONE)"
proof -
  have h: "(27::int) \<in> {0..63}"
    "ptype (slideBoard 27) = BISHOP \<or> ptype (slideBoard 27) = ROOK \<or> ptype (slideBoard 27) = QUEEN"
    by (simp_all add: ptype_def example_defs)
  from slides_stop_at_first_piece[of 27 slideBoard, OF h] obtain b' where
    c: "calculateMoves slideBoard 27 = Some b'" and
    r: "\<And>d n. d \<in> set (rays (ptype (slideBoard 27))) \<Longrightarrow> n \<in> {1..7} \<Longrightarrow> onBoard 27 d n \<Longrightarrow>
        b' (raySquare 27 d n) =
          (if clearTo slideBoard 27 d n \<and> markable slideBoard 27 (raySquare 27 d n)
           then slideBoard (raySquare 27 d n) OR 64 else slideBoard (raySquare 27 d n))"
    by blast
  have d: "Upward \<in> set (rays (ptype (slideBoard 27)))" "Rightward \<in> set (rays (ptype (slideBoard 27)))"
    by (simp_all add: rays_def ptype_def example_defs)
  have s: "raySquare 27 Upward 1 = 19" "raySquare 27 Upward 2 = 11" "raySquare 27 Upward 3 = 3"
    "raySquare 27 Rightward 1 = 28" "raySquare 27 Rightward 2 = 29" "raySquare 27 Rightward 3 = 30"
    by (simp_all add: raySquare_def)
  have o: "onBoard 27 Upward 1" "onBoard 27 Upward 2" "onBoard 27 Upward 3"
    "onBoard 27 Rightward 1" "onBoard 27 Rightward 2" "onBoard 27 Rightward 3"
    by (simp_all add: onBoard_def)
  have i2: "{1..2 - 1} = {1::int}" "{1..3 - 1} = {1, 2::int}" "{1..1 - 1} = ({}::int set)" by auto
  have cl: "clearTo slideBoard 27 Upward 1" "clearTo slideBoard 27 Upward 2"
    "\<not> clearTo slideBoard 27 Upward 3" "clearTo slideBoard 27 Rightward 1"
    "clearTo slideBoard 27 Rightward 2" "\<not> clearTo slideBoard 27 Rightward 3"
    unfolding clearTo_def i2 by (simp_all add: s ptype_def example_defs)
  have m: "markable slideBoard 27 19" "markable slideBoard 27 11" "markable slideBoard 27 28"
    "\<not> markable slideBoard 27 29"
    by (simp_all add: markable_def ptype_def colour_def example_defs)
  have v: "slideBoard 19 OR 64 = 0x40" "slideBoard 11 OR 64 = 0x49" "slideBoard 3 = NONE"
    "slideBoard 28 OR 64 = 0x40" "slideBoard 29 = 0x02" "slideBoard 30 = NONE"
    by (simp_all add: example_defs)
  from r[OF d(1) _ o(1)] r[OF d(1) _ o(2)] r[OF d(1) _ o(3)]
    r[OF d(2) _ o(4)] r[OF d(2) _ o(5)] r[OF d(2) _ o(6)]
  have "b' 19 = 0x40" "b' 11 = 0x49" "b' 3 = NONE" "b' 28 = 0x40" "b' 29 = 0x02" "b' 30 = NONE"
    by (simp_all add: s cl m v)
  with c h show ?thesis by simp
qed

end
